theory Spec2Isabelle
  imports Main "HOL-Library.Word" "HOL-Library.Multiset"
begin

text \<open>
  A model of the Loki push client: the batch (\<open>loki/batch.go\<close>), the dispatcher loop, the
  sender with its retry loop, \<open>Handle\<close> and \<open>Stop\<close> (\<open>loki/client.go\<close>), and the wire types
  (\<open>pkg/logproto/logproto.go\<close>). What the code takes from its environment is an argument
  of the model: the serialisation of label sets, \<open>json.Marshal\<close>, the order in which a
  \<open>range\<close> visits a map, the clock readings of \<open>time.Now\<close> and \<open>time.Since\<close>, and what
  the network does with each request. The definitions come first, then the properties,
  each stated in words before its theorem.
\<close>

section \<open>Wire types (pkg/logproto/logproto.go)\<close>

text \<open>
  \<open>model.LabelSet\<close> is a Go map from label names to label values. \<open>logproto.Value\<close> is
  the array type \<open>[2]string\<close>: element 0 is the timestamp in decimal, element 1 the log
  line. It is modelled as a pair; \<open>elems\<close> lists its elements and the Go builtin
  \<open>len\<close> on it is the number of elements.
\<close>

type_synonym LabelSet = "string \<rightharpoonup> string"

type_synonym Value = "string \<times> string"

definition elems :: "Value \<Rightarrow> string list" where
  "elems v = [fst v, snd v]"

definition len_Value :: "Value \<Rightarrow> nat" where
  "len_Value v = length (elems v)"

record Stream =
  Labels :: LabelSet
  Values :: "Value list"

record PushRequest =
  Streams :: "Stream list"

section \<open>Entries and batches (loki/client.go, loki/batch.go)\<close>

text \<open>
  Go's \<open>int\<close> is taken at its width on 64-bit platforms: byte counts and entry counts
  are \<open>64 word\<close>, \<open>+\<close> wraps and comparisons are signed. Instants and durations
  (\<open>time.Time\<close>, \<open>time.Duration\<close>) are nanosecond counts, kept as \<open>int\<close>: the code only
  subtracts and compares them and divides a duration by 10, and the saturation of
  \<open>time.Since\<close> after 292 years is left out.
\<close>

type_synonym go_int = "64 word"

record entry =
  tenantID :: string
  labels :: LabelSet
  val :: Value

record batch =
  streams :: "string \<rightharpoonup> Stream"
  bytes :: go_int
  createdAt :: int

text \<open>
  \<open>LabelSet.String\<close> belongs to the label-model package, which is not part of the
  sources; every function that serialises a label set takes it as the parameter
  \<open>String_of\<close>.
\<close>

definition add :: "(LabelSet \<Rightarrow> string) \<Rightarrow> batch \<Rightarrow> entry \<Rightarrow> batch" where
  "add String_of b e =
     (let b1 = b\<lparr>bytes := bytes b + of_nat (length (snd (val e)))\<rparr>;
          ls = String_of (labels e)
      in case streams b1 ls of
           Some stream \<Rightarrow>
             b1\<lparr>streams := (streams b1)(ls \<mapsto> stream\<lparr>Values := Values stream @ [val e]\<rparr>)\<rparr>
         | None \<Rightarrow>
             b1\<lparr>streams := (streams b1)(ls \<mapsto> \<lparr>Labels = labels e, Values = [val e]\<rparr>)\<rparr>)"

text \<open>\<open>newBatch\<close> reads the clock (\<open>time.Now()\<close>); the reading is the argument \<open>now\<close>.\<close>

definition newBatch :: "(LabelSet \<Rightarrow> string) \<Rightarrow> int \<Rightarrow> entry list \<Rightarrow> batch" where
  "newBatch String_of now entries =
     foldl (add String_of) \<lparr>streams = Map.empty, bytes = 0, createdAt = now\<rparr> entries"

definition sizeBytes :: "batch \<Rightarrow> go_int" where
  "sizeBytes b = bytes b"

definition sizeBytesAfter :: "batch \<Rightarrow> entry \<Rightarrow> go_int" where
  "sizeBytesAfter b e = bytes b + of_nat (len_Value (val e))"

text \<open>\<open>age\<close> is \<open>time.Since(b.createdAt)\<close>; \<open>now\<close> is the clock reading of that call.\<close>

definition age :: "int \<Rightarrow> batch \<Rightarrow> int" where
  "age now b = now - createdAt b"

text \<open>
  \<open>createPushRequest\<close> ranges over the map \<open>b.streams\<close>. Go visits every key of a map
  once, in an unspecified order: the order of the visit is the argument \<open>ks\<close>, and
  \<open>range_order ks m\<close> says that \<open>ks\<close> is such a visit of the map \<open>m\<close>.
\<close>

definition range_order :: "'k list \<Rightarrow> ('k \<rightharpoonup> 'v) \<Rightarrow> bool" where
  "range_order ks m \<longleftrightarrow> distinct ks \<and> set ks = dom m"

fun pushLoop :: "batch \<Rightarrow> string list \<Rightarrow> PushRequest \<times> go_int \<Rightarrow> PushRequest \<times> go_int" where
  "pushLoop b [] acc = acc"
| "pushLoop b (k # ks) (req, entriesCount) =
     (case streams b k of
        None \<Rightarrow> pushLoop b ks (req, entriesCount)
      | Some stream \<Rightarrow>
          pushLoop b ks (req\<lparr>Streams := Streams req @ [stream]\<rparr>,
                         entriesCount + of_nat (length (Values stream))))"

definition createPushRequest :: "string list \<Rightarrow> batch \<Rightarrow> PushRequest \<times> go_int" where
  "createPushRequest ks b = pushLoop b ks (\<lparr>Streams = []\<rparr>, 0)"

text \<open>
  \<open>json.Marshal\<close> is the parameter \<open>marshal\<close>: it yields an error (\<open>Inl\<close>) or the
  payload. \<open>encodeJSON\<close> returns the error, or the payload with the entry count.
\<close>

definition encodeJSON ::
  "(PushRequest \<Rightarrow> 'err + 'buf) \<Rightarrow> string list \<Rightarrow> batch \<Rightarrow> 'err + ('buf \<times> go_int)" where
  "encodeJSON marshal ks b =
     (let (req, entriesCount) = createPushRequest ks b
      in case marshal req of
           Inl err \<Rightarrow> Inl err
         | Inr buf \<Rightarrow> Inr (buf, entriesCount))"

section \<open>The dispatcher loop (Client.run)\<close>

text \<open>
  \<open>Config\<close> and the backoff configuration are declared outside the sources; the records
  have the fields that the modelled code reads. Go's \<open>/\<close> on integers truncates
  towards zero (\<open>go_quot\<close>).
\<close>

record BackoffConfig =
  MinBackoff :: int
  MaxBackoff :: int
  MaxRetries :: int

record Config =
  URL :: string
  BatchWait :: int
  BatchSize :: go_int
  BackoffConfig :: BackoffConfig
  TenantID :: string

definition go_quot :: "int \<Rightarrow> int \<Rightarrow> int" where
  "go_quot a b = (if (a < 0) = (b < 0) then \<bar>a\<bar> div \<bar>b\<bar> else - (\<bar>a\<bar> div \<bar>b\<bar>))"

definition Millisecond :: int where
  "Millisecond = 1000000"

definition maxWaitCheckFrequency :: "Config \<Rightarrow> int" where
  "maxWaitCheckFrequency cfg =
     (let minWaitCheckFrequency = 10 * Millisecond;
          maxWaitCheckFrequency = go_quot (BatchWait cfg) 10
      in if maxWaitCheckFrequency < minWaitCheckFrequency then minWaitCheckFrequency
         else maxWaitCheckFrequency)"

text \<open>
  The loop owns the map \<open>batches\<close>. \<open>sendBatch\<close> returns nothing and the loop does not
  depend on its outcome: the calls of \<open>sendBatch\<close> made so far, with their arguments, are
  recorded in \<open>sent\<close>, in the order of the calls.
\<close>

record dispatcher =
  batches :: "string \<rightharpoonup> batch"
  sent :: "(string \<times> batch) list"

text \<open>The case \<open>e := <-c.entries\<close>; \<open>now\<close> is the clock reading of \<open>newBatch\<close>.\<close>

definition on_entry ::
  "(LabelSet \<Rightarrow> string) \<Rightarrow> Config \<Rightarrow> entry \<Rightarrow> int \<Rightarrow> dispatcher \<Rightarrow> dispatcher" where
  "on_entry String_of cfg e now d =
     (case batches d (tenantID e) of
        None \<Rightarrow> d\<lparr>batches := (batches d)(tenantID e \<mapsto> newBatch String_of now [e])\<rparr>
      | Some batch \<Rightarrow>
          if BatchSize cfg <s sizeBytesAfter batch e
          then d\<lparr>sent := sent d @ [(tenantID e, batch)],
                 batches := (batches d)(tenantID e \<mapsto> newBatch String_of now [e])\<rparr>
          else d\<lparr>batches := (batches d)(tenantID e \<mapsto> add String_of batch e)\<rparr>)"

text \<open>
  The case \<open><-maxWaitCheck.C\<close>. The loop ranges over \<open>batches\<close> and calls \<open>age\<close> on each
  batch it visits; every call reads the clock. A visit is a tenant with the clock reading
  of its \<open>age\<close> call, and the list of visits is in the order of the range.
\<close>

fun on_tick :: "Config \<Rightarrow> (string \<times> int) list \<Rightarrow> dispatcher \<Rightarrow> dispatcher" where
  "on_tick cfg [] d = d"
| "on_tick cfg ((tenant, now) # visits) d =
     (case batches d tenant of
        None \<Rightarrow> on_tick cfg visits d
      | Some batch \<Rightarrow>
          if age now batch < BatchWait cfg then on_tick cfg visits d
          else on_tick cfg visits
                 (d\<lparr>sent := sent d @ [(tenant, batch)],
                    batches := (batches d)(tenant := None)\<rparr>))"

text \<open>The deferred function of \<open>run\<close>: send all pending batches, in the order of the range.\<close>

fun drain :: "string list \<Rightarrow> dispatcher \<Rightarrow> dispatcher" where
  "drain [] d = d"
| "drain (tenant # ks) d =
     (case batches d tenant of
        None \<Rightarrow> drain ks d
      | Some batch \<Rightarrow> drain ks (d\<lparr>sent := sent d @ [(tenant, batch)]\<rparr>))"

datatype event = Entry entry int | Tick "(string \<times> int) list"

fun step :: "(LabelSet \<Rightarrow> string) \<Rightarrow> Config \<Rightarrow> dispatcher \<Rightarrow> event \<Rightarrow> dispatcher" where
  "step String_of cfg d (Entry e now) = on_entry String_of cfg e now d"
| "step String_of cfg d (Tick visits) = on_tick cfg visits d"

text \<open>
  \<open>run\<close>: the events selected before the quit case, then the deferred drain in the
  order \<open>ks\<close>. \<open>visits_ok\<close> says that every tick ranges over the map as it is then.
\<close>

definition run ::
  "(LabelSet \<Rightarrow> string) \<Rightarrow> Config \<Rightarrow> event list \<Rightarrow> string list \<Rightarrow> dispatcher" where
  "run String_of cfg evs ks =
     drain ks (foldl (step String_of cfg) \<lparr>batches = Map.empty, sent = []\<rparr> evs)"

fun visits_ok :: "(LabelSet \<Rightarrow> string) \<Rightarrow> Config \<Rightarrow> dispatcher \<Rightarrow> event list \<Rightarrow> bool" where
  "visits_ok String_of cfg d [] = True"
| "visits_ok String_of cfg d (Entry e now # evs) =
     visits_ok String_of cfg (on_entry String_of cfg e now d) evs"
| "visits_ok String_of cfg d (Tick visits # evs) =
     (range_order (map fst visits) (batches d)
      \<and> visits_ok String_of cfg (on_tick cfg visits d) evs)"

section \<open>Sending a batch (Client.send, Client.sendBatch)\<close>

text \<open>
  Modelled from the spec: the backoff package (\<open>backoff.New\<close>, \<open>Ongoing\<close>, \<open>Wait\<close>) is
  not part of the sources. The spec describes it as a retry budget: given the maximum
  number of retries it reports whether retries remain, and \<open>Wait\<close> sleeps and advances it.
  The context is \<open>context.Background()\<close>, which is never cancelled; the sleep itself is
  not modelled.
\<close>

record Backoff =
  bcfg :: BackoffConfig
  numRetries :: int

definition New_backoff :: "BackoffConfig \<Rightarrow> Backoff" where
  "New_backoff c = \<lparr>bcfg = c, numRetries = 0\<rparr>"

definition Ongoing :: "Backoff \<Rightarrow> bool" where
  "Ongoing b \<longleftrightarrow> numRetries b < MaxRetries (bcfg b)"

definition Wait :: "Backoff \<Rightarrow> Backoff" where
  "Wait b = b\<lparr>numRetries := numRetries b + 1\<rparr>"

text \<open>
  The request that \<open>send\<close> builds. What the network does with one call of \<open>send\<close> is an
  \<open>outcome\<close>: \<open>http.NewRequest\<close> fails, \<open>c.client.Do\<close> fails (no response), or a
  response arrives with its status code and the first line of its body.
\<close>

record 'buf Request =
  meth :: string
  target :: string
  header :: "string \<rightharpoonup> string"
  body :: 'buf

datatype outcome = NewRequestFailed | DoFailed | Response int string

datatype send_error = RequestError | TransportError | StatusError int string

definition JSONContentType :: string where
  "JSONContentType = ''application/json''"

definition Version :: string where
  "Version = ''0.0.1''"

definition UserAgent :: string where
  "UserAgent = ''LokiGoClient/'' @ Version"

definition newRequest :: "Config \<Rightarrow> string \<Rightarrow> 'buf \<Rightarrow> 'buf Request" where
  "newRequest cfg tenant buf =
     (let req = \<lparr>meth = ''POST'', target = URL cfg, header = Map.empty, body = buf\<rparr>;
          req = req\<lparr>header := (header req)(''Content-Type'' \<mapsto> JSONContentType)\<rparr>;
          req = req\<lparr>header := (header req)(''User-Agent'' \<mapsto> UserAgent)\<rparr>
      in if tenant \<noteq> '''' then req\<lparr>header := (header req)(''X-Scope-OrgID'' \<mapsto> tenant)\<rparr>
         else req)"

text \<open>
  \<open>send\<close> returns the status and the error; the first component of the model's result
  is the request handed to \<open>c.client.Do\<close>, if one was.
\<close>

type_synonym 'buf attempt = "'buf Request option \<times> int \<times> send_error option"

definition send :: "Config \<Rightarrow> string \<Rightarrow> 'buf \<Rightarrow> outcome \<Rightarrow> 'buf attempt" where
  "send cfg tenant buf out =
     (case out of
        NewRequestFailed \<Rightarrow> (None, - 1, Some RequestError)
      | DoFailed \<Rightarrow> (Some (newRequest cfg tenant buf), - 1, Some TransportError)
      | Response StatusCode line \<Rightarrow>
          (Some (newRequest cfg tenant buf), StatusCode,
           if go_quot StatusCode 100 \<noteq> 2 then Some (StatusError StatusCode line) else None))"

text \<open>
  The loop \<open>for backoff.Ongoing() { ... }\<close>. \<open>net i\<close> is the outcome of the call of
  \<open>send\<close> number \<open>i\<close> (from 0) of this \<open>sendBatch\<close>; \<open>tried\<close> are the attempts made so far;
  the result is all attempts with the last values of \<open>status\<close> and \<open>err\<close>.
\<close>

function sendLoop ::
  "Config \<Rightarrow> string \<Rightarrow> 'buf \<Rightarrow> (nat \<Rightarrow> outcome) \<Rightarrow> Backoff \<Rightarrow> int \<times> send_error option
   \<Rightarrow> 'buf attempt list \<Rightarrow> 'buf attempt list \<times> int \<times> send_error option" where
  "sendLoop cfg tenant buf net backoff (status, err) tried =
     (if Ongoing backoff then
        (case send cfg tenant buf (net (length tried)) of
           (req, status', err') \<Rightarrow>
             if status' > 0 \<and> status' \<noteq> 429 \<and> go_quot status' 100 \<noteq> 5
             then (tried @ [(req, status', err')], status', err')
             else sendLoop cfg tenant buf net (Wait backoff) (status', err')
                    (tried @ [(req, status', err')]))
      else (tried, status, err))"
  by pat_completeness auto
termination
  by (relation "measure (\<lambda>(cfg, tenant, buf, net, backoff, r, tried).
                  nat (MaxRetries (bcfg backoff) - numRetries backoff))")
     (auto simp: Ongoing_def Wait_def)

declare sendLoop.simps [simp del]

text \<open>
  \<open>sendBatch\<close>: \<open>Inl\<close> when the encoding fails (logged, nothing sent); otherwise the
  attempts, the last status and the last error. A last error that is not \<open>None\<close> is
  logged as the final error.
\<close>

definition sendBatch ::
  "(PushRequest \<Rightarrow> 'err + 'buf) \<Rightarrow> string list \<Rightarrow> Config \<Rightarrow> (nat \<Rightarrow> outcome) \<Rightarrow> string
   \<Rightarrow> batch \<Rightarrow> 'err + ('buf attempt list \<times> int \<times> send_error option)" where
  "sendBatch marshal ks cfg net tenant batch =
     (case encodeJSON marshal ks batch of
        Inl err \<Rightarrow> Inl err
      | Inr (buf, entriesCount) \<Rightarrow>
          Inr (sendLoop cfg tenant buf net (New_backoff (BackoffConfig cfg)) (0, None) []))"

section \<open>Handle, getTenantID and Stop\<close>

text \<open>
  A Go map is a reference: \<open>Handle\<close> receives the caller's label set by reference and
  the builtin \<open>delete\<close> changes the map it is applied to. The maps live in a store,
  addressed by position; a new map is put at the end of the store.
\<close>

type_synonym ref = nat

type_synonym store = "LabelSet list"

text \<open>
  Modelled from the spec: \<open>LabelSet.Merge\<close> and \<open>LabelSet.Clone\<close> are not part of the
  sources. By the spec, merging layers the label set of the call on top of the external
  label set, and cloning gives a label set that \<open>Handle\<close> can change without changing
  the caller's: \<open>Merge\<close> makes a new map in which the bindings of the argument override
  those of the receiver, \<open>Clone\<close> makes a new map with the same bindings.
\<close>

definition Merge :: "store \<Rightarrow> ref \<Rightarrow> ref \<Rightarrow> store \<times> ref" where
  "Merge h l other = (h @ [(h ! l) ++ (h ! other)], length h)"

definition Clone :: "store \<Rightarrow> ref \<Rightarrow> store \<times> ref" where
  "Clone h l = (h @ [h ! l], length h)"

definition delete :: "store \<Rightarrow> ref \<Rightarrow> string \<Rightarrow> store" where
  "delete h l k = h[l := (h ! l)(k := None)]"

definition ReservedLabelTenantID :: string where
  "ReservedLabelTenantID = ''__tenant_id__''"

record Client =
  cfg :: Config
  externalLabels :: ref
  quit :: bool
  once :: bool
  wg :: int

definition getTenantID :: "Client \<Rightarrow> LabelSet \<Rightarrow> string" where
  "getTenantID c ls =
     (case ls ReservedLabelTenantID of
        Some v \<Rightarrow> v
      | None \<Rightarrow> if TenantID (cfg c) \<noteq> '''' then TenantID (cfg c) else '''')"

text \<open>\<open>fmt.Sprintf("%d", n)\<close>: the decimal digits of \<open>n\<close>, with a minus sign if negative.\<close>

function digits :: "nat \<Rightarrow> string" where
  "digits n = (if n < 10 then [char_of (48 + n)]
               else digits (n div 10) @ [char_of (48 + n mod 10)])"
  by pat_completeness auto
termination
  by (relation "measure id") auto

declare digits.simps [simp del]

definition Sprintf_d :: "int \<Rightarrow> string" where
  "Sprintf_d n = (if n < 0 then CHR ''-'' # digits (nat (- n)) else digits (nat n))"

text \<open>
  \<open>Handle c h ls t s\<close>: \<open>ls\<close> is the reference to the caller's label set, \<open>t\<close> the value
  of \<open>t.UnixNano()\<close>. The result is the store after the call and the entry sent on
  \<open>c.entries\<close>, whose labels are the contents of the map it refers to. The error that
  \<open>Handle\<close> returns is always \<open>nil\<close> and is left out.
\<close>

definition Handle :: "Client \<Rightarrow> store \<Rightarrow> ref \<Rightarrow> int \<Rightarrow> string \<Rightarrow> store \<times> entry" where
  "Handle c h ls t s =
     (let (h, ls) = (if dom (h ! externalLabels c) \<noteq> {} then Merge h (externalLabels c) ls
                     else (h, ls));
          tenant = getTenantID c (h ! ls);
          (h, ls) = (if ReservedLabelTenantID \<in> dom (h ! ls)
                     then (let (h, ls) = Clone h ls in (delete h ls ReservedLabelTenantID, ls))
                     else (h, ls))
      in (h, \<lparr>tenantID = tenant, labels = h ! ls, val = (Sprintf_d t, s)\<rparr>))"

text \<open>
  \<open>Stop\<close> is \<open>c.once.Do(func() { close(c.quit) })\<close> followed by \<open>c.wg.Wait()\<close>. Closing a
  closed channel panics, and so does a negative \<open>WaitGroup\<close> counter. \<open>Wait\<close> returns only
  when the counter is zero.
\<close>

datatype panic = close_of_closed_channel | negative_WaitGroup_counter

definition close_quit :: "Client \<Rightarrow> panic + Client" where
  "close_quit c = (if quit c then Inl close_of_closed_channel else Inr (c\<lparr>quit := True\<rparr>))"

definition once_Do_close :: "Client \<Rightarrow> panic + Client" where
  "once_Do_close c = (if once c then Inr c else close_quit (c\<lparr>once := True\<rparr>))"

definition wg_Done :: "Client \<Rightarrow> panic + Client" where
  "wg_Done c = (if wg c - 1 < 0 then Inl negative_WaitGroup_counter
                else Inr (c\<lparr>wg := wg c - 1\<rparr>))"

definition wg_Wait_returns :: "Client \<Rightarrow> bool" where
  "wg_Wait_returns c \<longleftrightarrow> wg c = 0"

text \<open>
  The client and its dispatcher goroutine as a transition system. \<open>returned\<close> says that
  \<open>run\<close> has returned; \<open>accepted\<close> lists the entries the dispatcher has received from
  \<open>c.entries\<close>. \<open>NewWithLogger\<close>, when it does not return an error, makes the channels,
  adds 1 to the \<open>WaitGroup\<close> and starts \<open>run\<close>. The steps are: the dispatcher receives an entry; it handles a tick; some
  goroutine executes the first statement of \<open>Stop\<close>; the dispatcher selects the closed
  \<open>quit\<close> channel, returns and runs its deferred function.
\<close>

record system =
  client :: Client
  loop :: dispatcher
  returned :: bool
  accepted :: "entry list"

definition NewWithLogger :: "Config \<Rightarrow> ref \<Rightarrow> system" where
  "NewWithLogger c ext =
     \<lparr>client = \<lparr>cfg = c, externalLabels = ext, quit = False, once = False, wg = 1\<rparr>,
      loop = \<lparr>batches = Map.empty, sent = []\<rparr>,
      returned = False,
      accepted = []\<rparr>"

inductive reach :: "(LabelSet \<Rightarrow> string) \<Rightarrow> system \<Rightarrow> bool" for String_of where
  start: "reach String_of (NewWithLogger c ext)"
| recv: "reach String_of s \<Longrightarrow> \<not> returned s \<Longrightarrow>
         reach String_of
           (s\<lparr>loop := on_entry String_of (cfg (client s)) e now (loop s),
              accepted := accepted s @ [e]\<rparr>)"
| tick: "reach String_of s \<Longrightarrow> \<not> returned s \<Longrightarrow>
         range_order (map fst visits) (batches (loop s)) \<Longrightarrow>
         reach String_of (s\<lparr>loop := on_tick (cfg (client s)) visits (loop s)\<rparr>)"
| stop: "reach String_of s \<Longrightarrow> once_Do_close (client s) = Inr c' \<Longrightarrow>
         reach String_of (s\<lparr>client := c'\<rparr>)"
| exit: "reach String_of s \<Longrightarrow> \<not> returned s \<Longrightarrow> quit (client s) \<Longrightarrow>
         range_order ks (batches (loop s)) \<Longrightarrow>
         wg_Done (client s) = Inr c' \<Longrightarrow>
         reach String_of (s\<lparr>loop := drain ks (loop s), client := c', returned := True\<rparr>)"

section \<open>Notions used to state the properties\<close>

text \<open>
  An attempt is retried when the retry loop of \<open>sendBatch\<close> does not \<open>break\<close> after it:
  \<open>retryable\<close> is the negation of the condition of that \<open>break\<close>.
\<close>

definition retryable :: "int \<Rightarrow> bool" where
  "retryable status \<longleftrightarrow> \<not> (status > 0 \<and> status \<noteq> 429 \<and> go_quot status 100 \<noteq> 5)"

text \<open>
  The (label set, value) pairs that a push request carries, stream by stream.
\<close>

definition pairs :: "PushRequest \<Rightarrow> (LabelSet \<times> Value) list" where
  "pairs req = concat (map (\<lambda>s. map (\<lambda>v. (Labels s, v)) (Values s)) (Streams req))"

text \<open>
  The age check of one visit of a tick: the visited tenant has a pending batch whose age,
  at the clock reading of the visit, is at least \<open>BatchWait\<close>. The clock readings of the
  visits of tenant \<open>k\<close> in a sequence of ticks, in order.
\<close>

definition due :: "Config \<Rightarrow> (string \<rightharpoonup> batch) \<Rightarrow> string \<times> int \<Rightarrow> bool" where
  "due conf m v = (case m (fst v) of None \<Rightarrow> False | Some b \<Rightarrow> BatchWait conf \<le> age (snd v) b)"

definition visit_times :: "string \<Rightarrow> (string \<times> int) list list \<Rightarrow> int list" where
  "visit_times k ticks = map snd (filter (\<lambda>v. fst v = k) (concat ticks))"

text \<open>
  An entry is in a batch when the stream of its serialised label set carries its value;
  it is attempted when some call of \<open>sendBatch\<close> for its tenant has a batch it is in;
  it is held when it is attempted or in the pending batch of its tenant.
\<close>

definition in_batch :: "(LabelSet \<Rightarrow> string) \<Rightarrow> entry \<Rightarrow> batch \<Rightarrow> bool" where
  "in_batch S e b =
     (case streams b (S (labels e)) of None \<Rightarrow> False | Some s \<Rightarrow> val e \<in> set (Values s))"

definition attempted :: "(LabelSet \<Rightarrow> string) \<Rightarrow> (string \<times> batch) list \<Rightarrow> entry \<Rightarrow> bool" where
  "attempted S calls e = list_ex (\<lambda>call. fst call = tenantID e \<and> in_batch S e (snd call)) calls"

definition held :: "(LabelSet \<Rightarrow> string) \<Rightarrow> dispatcher \<Rightarrow> entry \<Rightarrow> bool" where
  "held S d e \<longleftrightarrow>
     attempted S (sent d) e
     \<or> (case batches d (tenantID e) of None \<Rightarrow> False | Some b \<Rightarrow> in_batch S e b)"




text \<open>
  The label set that \<open>Handle\<close> works on after the merge of the external labels: the
  caller's labels layered on top of the external ones, or the caller's labels alone when
  there are no external labels.
\<close>

definition merged :: "Client \<Rightarrow> store \<Rightarrow> ref \<Rightarrow> LabelSet" where
  "merged c h ls =
     (if dom (h ! externalLabels c) \<noteq> {} then (h ! externalLabels c) ++ (h ! ls) else h ! ls)"

section \<open>Example data\<close>

text \<open>
  A serialisation of label sets that only shows the label \<open>app\<close>, and three entries of
  one tenant, the first and the third with the same label set.
\<close>

definition String_app :: "LabelSet \<Rightarrow> string" where
  "String_app ls = (case ls ''app'' of None \<Rightarrow> ''{}'' | Some v \<Rightarrow> ''{app='' @ v @ ''}'')"

definition ex1 :: entry where
  "ex1 = \<lparr>tenantID = ''t'', labels = [''app'' \<mapsto> ''a''], val = (''1'', ''ab'')\<rparr>"

definition ex2 :: entry where
  "ex2 = \<lparr>tenantID = ''t'', labels = [''app'' \<mapsto> ''b''], val = (''2'', ''cde'')\<rparr>"

definition ex3 :: entry where
  "ex3 = \<lparr>tenantID = ''t'', labels = [''app'' \<mapsto> ''a''], val = (''3'', ''f'')\<rparr>"

text \<open>
  A configuration with a batch wait of 30ms (so that the check period is the floor of
  10ms), a batch size of 3 bytes and 3 retries; a dispatcher with one pending batch
  created at time 0; three ticks 10ms apart; a server that answers 500 twice and then
  200.
\<close>

definition ex_conf :: Config where
  "ex_conf = \<lparr>URL = ''http://localhost:3100/loki/api/v1/push'', BatchWait = 30000000,
               BatchSize = 3,
               BackoffConfig = \<lparr>MinBackoff = 100000000, MaxBackoff = 10000000000, MaxRetries = 3\<rparr>,
               TenantID = ''static''\<rparr>"

definition ex_pending :: dispatcher where
  "ex_pending = \<lparr>batches = [''t'' \<mapsto> newBatch String_app 0 [ex1]], sent = []\<rparr>"

definition ex_ticks :: "(string \<times> int) list list" where
  "ex_ticks = [[(''t'', 10000000)], [(''t'', 20000000)], [(''t'', 30000000)]]"

definition ex_net :: "nat \<Rightarrow> outcome" where
  "ex_net i = (if i < 2 then Response 500 ''busy'' else Response 200 '''')"

text \<open>
  Two tenants with a pending batch each, both created at time 0, and three ticks: in the
  third the batch of \<open>u\<close> is due at 30ms and is sent, and the age of the batch of \<open>t\<close>
  is only read when that \<open>sendBatch\<close> has returned, at 230ms.
\<close>

definition ex4 :: entry where
  "ex4 = \<lparr>tenantID = ''u'', labels = [''app'' \<mapsto> ''a''], val = (''4'', ''gh'')\<rparr>"

definition ex_two :: dispatcher where
  "ex_two = \<lparr>batches = [''t'' \<mapsto> newBatch String_app 0 [ex1], ''u'' \<mapsto> newBatch String_app 0 [ex4]],
             sent = []\<rparr>"

definition ex_late :: "(string \<times> int) list list" where
  "ex_late = [[(''u'', 10000000), (''t'', 10000000)],
              [(''u'', 20000000), (''t'', 20000000)],
              [(''u'', 30000000), (''t'', 230000000)]]"

text \<open>
  A run of the client: one entry received, the first statement of \<open>Stop\<close> executed,
  the dispatcher returned.
\<close>

definition ex_s1 :: system where
  "ex_s1 = (NewWithLogger ex_conf 0)
     \<lparr>loop := on_entry String_app (cfg (client (NewWithLogger ex_conf 0))) ex1 0
                (loop (NewWithLogger ex_conf 0)),
      accepted := accepted (NewWithLogger ex_conf 0) @ [ex1]\<rparr>"

definition ex_s2 :: system where
  "ex_s2 = ex_s1\<lparr>client := (client ex_s1)\<lparr>once := True, quit := True\<rparr>\<rparr>"

definition ex_s3 :: system where
  "ex_s3 = ex_s2\<lparr>loop := drain [''t''] (loop ex_s2),
                 client := (client ex_s2)\<lparr>wg := wg (client ex_s2) - 1\<rparr>,
                 returned := True\<rparr>"

text \<open>
  A client whose external labels are at reference 0; a store in which they are not
  empty and the caller's label set, at reference 1, has the reserved label; the entry
  that \<open>Handle\<close> makes of it; a store in which the external labels are empty and the
  reserved label has the empty value.
\<close>

definition ex_client :: Client where
  "ex_client = \<lparr>cfg = ex_conf, externalLabels = 0, quit = False, once = False, wg = 1\<rparr>"

definition ex_store :: store where
  "ex_store = [[''job'' \<mapsto> ''x''], [''app'' \<mapsto> ''a'', ReservedLabelTenantID \<mapsto> ''t1'']]"



section \<open>Batches: streams, size and encoding\<close>

lemma add_streams:
  "streams (add S b e) k =
     (if k = S (labels e)
      then (case streams b k of
              None \<Rightarrow> Some \<lparr>Labels = labels e, Values = [val e]\<rparr>
            | Some s \<Rightarrow> Some (s\<lparr>Values := Values s @ [val e]\<rparr>))
      else streams b k)"
  by (simp add: add_def Let_def split: option.splits)

lemma add_bytes: "bytes (add S b e) = bytes b + of_nat (length (snd (val e)))"
  by (simp add: add_def Let_def split: option.splits)

lemma add_createdAt: "createdAt (add S b e) = createdAt b"
  by (simp add: add_def Let_def split: option.splits)

lemma foldl_add_streams:
  "streams (foldl (add S) b es) k =
     (case filter (\<lambda>e. S (labels e) = k) es of
        [] \<Rightarrow> streams b k
      | e # r \<Rightarrow>
          (case streams b k of
             None \<Rightarrow> Some \<lparr>Labels = labels e, Values = map val (e # r)\<rparr>
           | Some s \<Rightarrow> Some (s\<lparr>Values := Values s @ map val (e # r)\<rparr>)))"
proof (induction es arbitrary: b)
  case Nil
  show ?case by simp
next
  case (Cons e es)
  show ?case
    by (simp add: Cons.IH add_streams split: list.splits option.splits)
qed

lemma foldl_add_bytes:
  "bytes (foldl (add S) b es) = bytes b + of_nat (\<Sum>e\<leftarrow>es. length (snd (val e)))"
  by (induction es arbitrary: b) (simp_all add: add_bytes)

lemma foldl_add_createdAt: "createdAt (foldl (add S) b es) = createdAt b"
  by (induction es arbitrary: b) (simp_all add: add_createdAt)

lemma newBatch_append: "foldl (add S) (newBatch S now es0) es = newBatch S now (es0 @ es)"
  by (simp add: newBatch_def)

lemma newBatch_streams:
  "streams (newBatch S now es) k =
     (case filter (\<lambda>e. S (labels e) = k) es of
        [] \<Rightarrow> None
      | e # r \<Rightarrow> Some \<lparr>Labels = labels e, Values = map val (e # r)\<rparr>)"
  by (simp add: newBatch_def foldl_add_streams split: list.splits)

lemma newBatch_bytes:
  "bytes (newBatch S now es) = of_nat (\<Sum>e\<leftarrow>es. length (snd (val e)))"
  by (simp add: newBatch_def foldl_add_bytes)

lemma newBatch_dom: "dom (streams (newBatch S now es)) = (\<lambda>e. S (labels e)) ` set es"
proof -
  have "(streams (newBatch S now es) k = None) = (filter (\<lambda>e. S (labels e) = k) es = [])" for k
    by (simp add: newBatch_streams split: list.splits)
  then have "(streams (newBatch S now es) k = None) = (k \<notin> (\<lambda>e. S (labels e)) ` set es)" for k
    by (auto simp: filter_empty_conv)
  then show ?thesis by (auto simp: dom_def)
qed

lemma newBatch_single:
  "newBatch S now [e]
     = \<lparr>streams = [S (labels e) \<mapsto> \<lparr>Labels = labels e, Values = [val e]\<rparr>],
        bytes = of_nat (length (snd (val e))), createdAt = now\<rparr>"
  by (simp add: newBatch_def add_def Let_def)

lemma pushLoop_eq:
  "pushLoop b ks (req, n) =
     (req\<lparr>Streams := Streams req @ concat (map (\<lambda>k. case streams b k of None \<Rightarrow> [] | Some s \<Rightarrow> [s]) ks)\<rparr>,
      n + of_nat (\<Sum>k\<leftarrow>ks. case streams b k of None \<Rightarrow> 0 | Some s \<Rightarrow> length (Values s)))"
  by (induction ks arbitrary: req n) (simp_all split: option.splits)

lemma sum_filter_mset_keys:
  "distinct ks \<Longrightarrow>
   (\<Sum>k\<leftarrow>ks. filter_mset (\<lambda>e. f e = k) M) = filter_mset (\<lambda>e. f e \<in> set ks) M"
proof (induction ks)
  case Nil
  show ?case by simp
next
  case (Cons k ks)
  then show ?case
    by (auto simp: multiset_eq_iff)
qed

lemma createPushRequest_Streams:
  assumes "range_order ks (streams b)"
  shows "Streams (fst (createPushRequest ks b)) = map (\<lambda>k. the (streams b k)) ks"
proof -
  have "set ks \<subseteq> dom (streams b) \<Longrightarrow>
        concat (map (\<lambda>k. case streams b k of None \<Rightarrow> [] | Some s \<Rightarrow> [s]) ks)
          = map (\<lambda>k. the (streams b k)) ks"
    by (induction ks) auto
  with assms show ?thesis
    by (simp add: createPushRequest_def pushLoop_eq range_order_def)
qed

lemma createPushRequest_count:
  assumes "range_order ks (streams b)"
  shows "snd (createPushRequest ks b)
           = of_nat (length (pairs (fst (createPushRequest ks b))))"
proof -
  have "set ks \<subseteq> dom (streams b) \<Longrightarrow>
        (\<Sum>k\<leftarrow>ks. case streams b k of None \<Rightarrow> 0 | Some s \<Rightarrow> length (Values s))
          = (\<Sum>k\<leftarrow>ks. length (Values (the (streams b k))))"
    by (induction ks) auto
  moreover have "length (pairs (fst (createPushRequest ks b)))
          = (\<Sum>k\<leftarrow>ks. length (Values (the (streams b k))))"
    by (simp add: pairs_def createPushRequest_Streams [OF assms] length_concat comp_def)
  ultimately show ?thesis
    using assms by (simp add: createPushRequest_def pushLoop_eq range_order_def)
qed

lemma sum_list_image_mset:
  "(\<Sum>k\<leftarrow>ks. image_mset g (A k)) = image_mset g (\<Sum>k\<leftarrow>ks. A k)"
  by (induction ks) simp_all

lemma newBatch_pairs:
  assumes order: "range_order ks (streams (newBatch S now es))"
    and h: "\<And>e e'. e \<in> set es \<Longrightarrow> e' \<in> set es \<Longrightarrow> S (labels e) = S (labels e')
              \<Longrightarrow> h (labels e) = h (labels e')"
  shows "mset (map (\<lambda>(l, v). (h l, v)) (pairs (fst (createPushRequest ks (newBatch S now es)))))
           = mset (map (\<lambda>e. (h (labels e), val e)) es)"
proof -
  let ?b = "newBatch S now es"
  let ?F = "\<lambda>k. filter (\<lambda>e. S (labels e) = k) es"
  let ?g = "\<lambda>e. (h (labels e), val e)"
  from order have dist: "distinct ks" and ks: "set ks = (\<lambda>e. S (labels e)) ` set es"
    unfolding range_order_def newBatch_dom by blast+
  have one: "map (\<lambda>(l, v). (h l, v))
                 (map (\<lambda>v. (Labels (the (streams ?b k)), v)) (Values (the (streams ?b k))))
               = map ?g (?F k)" if "k \<in> set ks" for k
  proof (cases "?F k")
    case Nil
    with that ks show ?thesis by (auto simp: filter_empty_conv)
  next
    case (Cons e r)
    then have "e \<in> set (?F k)" by simp
    then have e: "e \<in> set es" "S (labels e) = k" by simp_all
    have "h (labels e') = h (labels e)" if "e' \<in> set (?F k)" for e'
      using h [of e' e] that e by simp
    then have "map (\<lambda>e'. (h (labels e), val e')) (?F k) = map ?g (?F k)"
      by (intro map_cong) auto
    moreover have "the (streams ?b k) = \<lparr>Labels = labels e, Values = map val (?F k)\<rparr>"
      by (simp add: newBatch_streams Cons)
    ultimately show ?thesis
      by (simp add: comp_def)
  qed
  have "map (\<lambda>(l, v). (h l, v)) (pairs (fst (createPushRequest ks ?b)))
          = concat (map (\<lambda>k. map ?g (?F k)) ks)"
  proof -
    have "map (\<lambda>k. map (\<lambda>(l, v). (h l, v))
                 (map (\<lambda>v. (Labels (the (streams ?b k)), v)) (Values (the (streams ?b k))))) ks
          = map (\<lambda>k. map ?g (?F k)) ks"
      by (rule map_cong [OF refl]) (rule one)
    then show ?thesis
      by (simp only: pairs_def createPushRequest_Streams [OF order] map_concat map_map comp_def)
  qed
  then have "mset (map (\<lambda>(l, v). (h l, v)) (pairs (fst (createPushRequest ks ?b))))
          = (\<Sum>k\<leftarrow>ks. image_mset ?g (filter_mset (\<lambda>e. S (labels e) = k) (mset es)))"
    by (simp add: mset_concat comp_def)
  also have "\<dots> = image_mset ?g (\<Sum>k\<leftarrow>ks. filter_mset (\<lambda>e. S (labels e) = k) (mset es))"
    by (rule sum_list_image_mset)
  also have "\<dots> = image_mset ?g (filter_mset (\<lambda>e. S (labels e) \<in> set ks) (mset es))"
    by (simp only: sum_filter_mset_keys [OF dist])
  also have "filter_mset (\<lambda>e. S (labels e) \<in> set ks) (mset es) = mset es"
    by (rule filter_mset_cong [where g = "\<lambda>_. True", simplified]) (auto simp: ks)
  finally show ?thesis by simp
qed

lemmas ex_defs = String_app_def ex1_def ex2_def ex3_def

lemma sint_of_nat_small:
  "n < 2 ^ 63 \<Longrightarrow> sint (of_nat n :: 64 word) = int n"
proof -
  assume "n < 2 ^ 63"
  then have "int n < 2 ^ 63" by (metis of_nat_less_iff of_nat_numeral of_nat_power)
  then have "signed_take_bit 63 (int n) = int n"
    by (intro signed_take_bit_int_eq_self) simp_all
  then show ?thesis by (simp add: signed_of_nat)
qed

text \<open>
  C4. For the batch built from the seeding entries \<open>es0\<close> and the appended entries \<open>es\<close>:
  the stream under a serialised label set \<open>k\<close> exists exactly when some entry has that
  serialisation, it is the only stream for it, it carries the labels of the first such
  entry and the values of all such entries in arrival order; adding an entry whose
  serialised label set has a stream appends its value to that stream and creates no
  stream; and \<open>sizeBytes\<close> is the sum of the lengths of the lines, in Go's \<open>int\<close>, and as
  an integer when the sum is below \<open>2 ^ 63\<close>.
\<close>

theorem batch_invariant:
  "streams (foldl (add S) (newBatch S now es0) es) k =
     (case filter (\<lambda>e. S (labels e) = k) (es0 @ es) of
        [] \<Rightarrow> None
      | e # r \<Rightarrow> Some \<lparr>Labels = labels e, Values = map val (e # r)\<rparr>)
   \<and> (\<forall>s. streams b (S (labels e)) = Some s \<longrightarrow>
          streams (add S b e) = (streams b)(S (labels e) \<mapsto> s\<lparr>Values := Values s @ [val e]\<rparr>)
          \<and> dom (streams (add S b e)) = dom (streams b))
   \<and> sizeBytes (foldl (add S) (newBatch S now es0) es)
       = of_nat (\<Sum>e\<leftarrow>es0 @ es. length (snd (val e)))
   \<and> ((\<Sum>e\<leftarrow>es0 @ es. length (snd (val e))) < 2 ^ 63 \<longrightarrow>
        sint (sizeBytes (foldl (add S) (newBatch S now es0) es))
        = int (\<Sum>e\<leftarrow>es0 @ es. length (snd (val e))))"
proof (intro conjI allI impI)
  show "streams (foldl (add S) (newBatch S now es0) es) k =
     (case filter (\<lambda>e. S (labels e) = k) (es0 @ es) of
        [] \<Rightarrow> None
      | e # r \<Rightarrow> Some \<lparr>Labels = labels e, Values = map val (e # r)\<rparr>)"
    by (simp only: newBatch_append newBatch_streams)
next
  fix s assume s: "streams b (S (labels e)) = Some s"
  then show "streams (add S b e) = (streams b)(S (labels e) \<mapsto> s\<lparr>Values := Values s @ [val e]\<rparr>)"
    by (simp add: add_def Let_def)
  then show "dom (streams (add S b e)) = dom (streams b)"
    using s by auto
next
  show size: "sizeBytes (foldl (add S) (newBatch S now es0) es)
       = of_nat (\<Sum>e\<leftarrow>es0 @ es. length (snd (val e)))"
    by (simp only: newBatch_append newBatch_bytes sizeBytes_def)
  assume "(\<Sum>e\<leftarrow>es0 @ es. length (snd (val e))) < 2 ^ 63"
  then show "sint (sizeBytes (foldl (add S) (newBatch S now es0) es))
        = int (\<Sum>e\<leftarrow>es0 @ es. length (snd (val e)))"
    by (simp only: size sint_of_nat_small)
qed

theorem batch_invariant_witness:
  "streams (foldl (add String_app) (newBatch String_app 0 [ex1]) [ex2]) (String_app (labels ex3))
     = Some \<lparr>Labels = [''app'' \<mapsto> ''a''], Values = [(''1'', ''ab'')]\<rparr>
   \<and> (\<Sum>e\<leftarrow>[ex1] @ [ex2, ex3]. length (snd (val e))) < 2 ^ 63
   \<and> streams (foldl (add String_app) (newBatch String_app 0 [ex1]) [ex2, ex3]) ''{app=a}''
       = Some \<lparr>Labels = [''app'' \<mapsto> ''a''], Values = [(''1'', ''ab''), (''3'', ''f'')]\<rparr>
   \<and> dom (streams (add String_app (foldl (add String_app) (newBatch String_app 0 [ex1]) [ex2]) ex3))
       = dom (streams (foldl (add String_app) (newBatch String_app 0 [ex1]) [ex2]))
   \<and> sint (sizeBytes (foldl (add String_app) (newBatch String_app 0 [ex1]) [ex2, ex3])) = 6"
  using batch_invariant
    [of String_app 0 "[ex1]" "[ex2, ex3]" "''{app=a}''"
        "foldl (add String_app) (newBatch String_app 0 [ex1]) [ex2]" ex3]
  by (simp add: newBatch_def add_def sizeBytes_def ex_defs Let_def)


lemma createPushRequest_newBatch_count:
  assumes "range_order ks (streams (newBatch S now es))"
  shows "length (pairs (fst (createPushRequest ks (newBatch S now es)))) = length es"
proof -
  have "mset (map (\<lambda>(l, v). (S l, v)) (pairs (fst (createPushRequest ks (newBatch S now es)))))
          = mset (map (\<lambda>e. (S (labels e), val e)) es)"
    using assms by (rule newBatch_pairs) simp
  then have "size (mset (map (\<lambda>(l, v). (S l, v)) (pairs (fst (createPushRequest ks (newBatch S now es))))))
          = size (mset (map (\<lambda>e. (S (labels e), val e)) es))"
    by (rule arg_cong)
  then show ?thesis by simp
qed

text \<open>
  C8. For the batch built from the entries \<open>es0\<close> and \<open>es\<close>, a range order \<open>ks\<close> of its
  streams, a payload \<open>buf\<close> that \<open>json.Marshal\<close> returns for its push request and that
  parses back to that request: \<open>encodeJSON\<close> returns \<open>buf\<close> with the number of appended
  entries; the parsed payload has that many (label set, value) pairs; they are the
  appended pairs, with label sets compared by their serialisation, and the very pairs
  when no two appended label sets share a serialisation.
\<close>

theorem encodeJSON_count:
  assumes order: "range_order ks (streams (foldl (add S) (newBatch S now es0) es))"
    and marshal: "marshal (fst (createPushRequest ks (foldl (add S) (newBatch S now es0) es))) = Inr buf"
    and parse: "parse buf = fst (createPushRequest ks (foldl (add S) (newBatch S now es0) es))"
  shows "encodeJSON marshal ks (foldl (add S) (newBatch S now es0) es)
           = Inr (buf, of_nat (length (es0 @ es)))
    \<and> length (pairs (parse buf)) = length (es0 @ es)
    \<and> mset (map (\<lambda>(l, v). (S l, v)) (pairs (parse buf)))
        = mset (map (\<lambda>e. (S (labels e), val e)) (es0 @ es))
    \<and> (inj_on S (labels ` set (es0 @ es)) \<longrightarrow>
        mset (pairs (parse buf)) = mset (map (\<lambda>e. (labels e, val e)) (es0 @ es)))"
proof -
  let ?b = "newBatch S now (es0 @ es)"
  have b: "foldl (add S) (newBatch S now es0) es = ?b"
    by (rule newBatch_append)
  from order have order': "range_order ks (streams ?b)"
    by (simp only: b)
  have len: "length (pairs (fst (createPushRequest ks ?b))) = length (es0 @ es)"
    using order' by (rule createPushRequest_newBatch_count)
  have cnt: "snd (createPushRequest ks ?b) = of_nat (length (es0 @ es))"
    using createPushRequest_count [OF order'] by (simp only: len)
  obtain req n where cp: "createPushRequest ks ?b = (req, n)"
    by force
  from marshal have "marshal req = Inr buf"
    by (simp add: b cp)
  moreover from cnt have "n = of_nat (length (es0 @ es))"
    by (simp only: cp snd_conv)
  ultimately have enc: "encodeJSON marshal ks ?b = Inr (buf, of_nat (length (es0 @ es)))"
    by (simp add: encodeJSON_def cp)
  have ser: "mset (map (\<lambda>(l, v). (S l, v)) (pairs (fst (createPushRequest ks ?b))))
               = mset (map (\<lambda>e. (S (labels e), val e)) (es0 @ es))"
    using order' by (rule newBatch_pairs) simp
  have exact: "mset (pairs (fst (createPushRequest ks ?b)))
               = mset (map (\<lambda>e. (labels e, val e)) (es0 @ es))"
    if "inj_on S (labels ` set (es0 @ es))"
  proof -
    have "mset (map (\<lambda>(l, v). (id l, v)) (pairs (fst (createPushRequest ks ?b))))
               = mset (map (\<lambda>e. (id (labels e), val e)) (es0 @ es))"
      using order' by (rule newBatch_pairs) (use that in \<open>simp add: inj_on_def\<close>)
    then show ?thesis by simp
  qed
  show ?thesis
    using enc len ser exact by (simp only: b parse) blast
qed

theorem encodeJSON_count_witness:
  "range_order [''{app=b}'', ''{app=a}'']
     (streams (foldl (add String_app) (newBatch String_app 0 [ex1]) [ex2, ex3]))
   \<and> inj_on String_app (labels ` set ([ex1] @ [ex2, ex3]))
   \<and> encodeJSON Inr [''{app=b}'', ''{app=a}'']
        (foldl (add String_app) (newBatch String_app 0 [ex1]) [ex2, ex3])
       = (Inr (\<lparr>Streams =
                  [\<lparr>Labels = [''app'' \<mapsto> ''b''], Values = [(''2'', ''cde'')]\<rparr>,
                   \<lparr>Labels = [''app'' \<mapsto> ''a''], Values = [(''1'', ''ab''), (''3'', ''f'')]\<rparr>]\<rparr>,
               3) :: unit + PushRequest \<times> go_int)
   \<and> mset (pairs \<lparr>Streams =
                  [\<lparr>Labels = [''app'' \<mapsto> ''b''], Values = [(''2'', ''cde'')]\<rparr>,
                   \<lparr>Labels = [''app'' \<mapsto> ''a''], Values = [(''1'', ''ab''), (''3'', ''f'')]\<rparr>]\<rparr>)
       = mset (map (\<lambda>e. (labels e, val e)) [ex1, ex2, ex3])"
proof -
  have order: "range_order [''{app=b}'', ''{app=a}'']
     (streams (foldl (add String_app) (newBatch String_app 0 [ex1]) [ex2, ex3]))"
    by (simp add: range_order_def newBatch_def add_def ex_defs Let_def insert_commute)
  have req: "fst (createPushRequest [''{app=b}'', ''{app=a}'']
               (foldl (add String_app) (newBatch String_app 0 [ex1]) [ex2, ex3]))
       = \<lparr>Streams =
                  [\<lparr>Labels = [''app'' \<mapsto> ''b''], Values = [(''2'', ''cde'')]\<rparr>,
                   \<lparr>Labels = [''app'' \<mapsto> ''a''], Values = [(''1'', ''ab''), (''3'', ''f'')]\<rparr>]\<rparr>"
    by (simp add: createPushRequest_def newBatch_def add_def ex_defs Let_def)
  have inj: "inj_on String_app (labels ` set ([ex1] @ [ex2, ex3]))"
    unfolding inj_on_def by (simp add: ex_defs)
  show ?thesis
    using encodeJSON_count [of "[''{app=b}'', ''{app=a}'']" String_app 0 "[ex1]" "[ex2, ex3]"
            "Inr :: PushRequest \<Rightarrow> unit + PushRequest" _ id, OF order, simplified req, OF refl]
      order inj
    by simp
qed

text \<open>
  C10. For every batch and entry, \<open>sizeBytesAfter\<close> is the current size plus 2, the number
  of elements of the value array, whatever the line is; and for a tenant with a pending
  batch the dispatcher flushes exactly when the current size plus 2 exceeds
  \<open>BatchSize\<close>, and appends otherwise.
\<close>

theorem sizeBytesAfter_plus_two:
  "sizeBytesAfter b e = sizeBytes b + 2
   \<and> sizeBytesAfter b (e\<lparr>val := v\<rparr>) = sizeBytesAfter b e
   \<and> (batches d (tenantID e) = Some b \<longrightarrow>
        on_entry S conf e now d =
          (if BatchSize conf <s sizeBytes b + 2
           then d\<lparr>sent := sent d @ [(tenantID e, b)],
                  batches := (batches d)(tenantID e \<mapsto> newBatch S now [e])\<rparr>
           else d\<lparr>batches := (batches d)(tenantID e \<mapsto> add S b e)\<rparr>))"
  by (simp add: sizeBytesAfter_def sizeBytes_def len_Value_def elems_def on_entry_def)

theorem sizeBytesAfter_plus_two_witness:
  "batches \<lparr>batches = [''t'' \<mapsto> newBatch String_app 0 [ex1]], sent = []\<rparr> (tenantID ex2)
     = Some (newBatch String_app 0 [ex1])
   \<and> sizeBytes (newBatch String_app 0 [ex1]) = 2
   \<and> on_entry String_app \<lparr>URL = ''u'', BatchWait = 0, BatchSize = 4,
          BackoffConfig = \<lparr>MinBackoff = 0, MaxBackoff = 0, MaxRetries = 1\<rparr>, TenantID = ''''\<rparr>
        ex2 7 \<lparr>batches = [''t'' \<mapsto> newBatch String_app 0 [ex1]], sent = []\<rparr>
     = \<lparr>batches = [''t'' \<mapsto> add String_app (newBatch String_app 0 [ex1]) ex2], sent = []\<rparr>
   \<and> sizeBytes (add String_app (newBatch String_app 0 [ex1]) ex2) = 5"
  using sizeBytesAfter_plus_two
    [of "newBatch String_app 0 [ex1]" ex2 _
        "\<lparr>batches = [''t'' \<mapsto> newBatch String_app 0 [ex1]], sent = []\<rparr>" String_app
        "\<lparr>URL = ''u'', BatchWait = 0, BatchSize = 4,
          BackoffConfig = \<lparr>MinBackoff = 0, MaxBackoff = 0, MaxRetries = 1\<rparr>, TenantID = ''''\<rparr>" 7]
  by (simp add: newBatch_def add_def sizeBytes_def ex_defs Let_def)

text \<open>
  C2. The projected size is not the current size plus the length of the line: for a
  batch that holds one entry with a line of 2 bytes and an arriving entry whose line has
  3 bytes, \<open>sizeBytesAfter\<close> is 4, while the current size plus the length of the line,
  and the size after \<open>add\<close>, is 5.
\<close>

theorem sizeBytesAfter_not_line_length:
  "sizeBytes (newBatch String_app 0 [ex1]) = 2
   \<and> length (snd (val ex2)) = 3
   \<and> sizeBytesAfter (newBatch String_app 0 [ex1]) ex2 = 4
   \<and> sizeBytes (newBatch String_app 0 [ex1]) + of_nat (length (snd (val ex2))) = 5
   \<and> sizeBytes (add String_app (newBatch String_app 0 [ex1]) ex2) = 5"
  by (simp add: sizeBytesAfter_def sizeBytes_def len_Value_def elems_def newBatch_single add_bytes
        ex1_def ex2_def)

section \<open>The sender: which statuses are retried\<close>

lemma go_quot_100:
  "go_quot status 100 = q \<longleftrightarrow>
     (if 0 \<le> status then status div 100 = q else - ((- status) div 100) = q)"
  by (simp add: go_quot_def)

lemma retryable_iff:
  "retryable status \<longleftrightarrow> status \<le> 0 \<or> status = 429 \<or> (500 \<le> status \<and> status \<le> 599)"
proof (cases "0 < status")
  case True
  then have "go_quot status 100 = status div 100"
    by (simp add: go_quot_def)
  moreover have "status div 100 = 5 \<longleftrightarrow> 500 \<le> status \<and> status \<le> 599"
    by presburger
  ultimately show ?thesis using True by (auto simp: retryable_def)
next
  case False
  then show ?thesis by (simp add: retryable_def)
qed

lemma send_status:
  "fst (snd (send conf tenant buf DoFailed)) = - 1"
  "fst (snd (send conf tenant buf NewRequestFailed)) = - 1"
  "fst (snd (send conf tenant buf (Response code line))) = code"
  by (simp_all add: send_def)

lemma send_2xx:
  assumes "200 \<le> code" and "code \<le> 299"
  shows "send conf tenant buf (Response code line) = (Some (newRequest conf tenant buf), code, None)"
proof -
  from assms have "go_quot code 100 = code div 100" by (simp add: go_quot_def)
  moreover from assms have "code div 100 = 2" by presburger
  ultimately show ?thesis by (simp add: send_def)
qed

lemma send_400:
  "send conf tenant buf (Response 400 line)
     = (Some (newRequest conf tenant buf), 400, Some (StatusError 400 line))"
  by (simp add: send_def go_quot_def)

lemma sendLoop_step:
  "Ongoing bo \<Longrightarrow> send conf tenant buf (net (length tried)) = (req, status, err) \<Longrightarrow>
   sendLoop conf tenant buf net bo r tried =
     (if retryable status
      then sendLoop conf tenant buf net (Wait bo) (status, err) (tried @ [(req, status, err)])
      else (tried @ [(req, status, err)], status, err))"
  by (cases r) (simp add: sendLoop.simps retryable_def)

lemma sendLoop_stop:
  "\<not> Ongoing bo \<Longrightarrow> sendLoop conf tenant buf net bo r tried = (tried, r)"
  by (cases r) (simp add: sendLoop.simps)

lemma sendLoop_extends:
  "\<exists>rest. fst (sendLoop conf tenant buf net bo r tried) = tried @ rest"
proof (induction conf tenant buf net bo r tried rule: sendLoop.induct)
  case (1 conf tenant buf net backoff status err tried)
  show ?case
  proof (cases "Ongoing backoff")
    case False
    then show ?thesis by (simp add: sendLoop_stop)
  next
    case True
    obtain req st e where s: "send conf tenant buf (net (length tried)) = (req, st, e)"
      by (cases "send conf tenant buf (net (length tried))")
    show ?thesis
    proof (cases "retryable st")
      case False
      with True s show ?thesis by (simp add: sendLoop_step)
    next
      case r: True
      have "\<exists>rest. fst (sendLoop conf tenant buf net (Wait backoff) (st, e)
                            (tried @ [(req, st, e)])) = (tried @ [(req, st, e)]) @ rest"
        using True s [symmetric] r by (intro "1.IH") (simp_all add: retryable_def)
      with True s r show ?thesis by (auto simp: sendLoop_step)
    qed
  qed
qed

lemma sendLoop_first:
  assumes "Ongoing bo"
  shows "\<exists>rest. fst (sendLoop conf tenant buf net bo r []) = send conf tenant buf (net 0) # rest"
proof -
  obtain req st e where s: "send conf tenant buf (net (length ([] :: 'a attempt list))) = (req, st, e)"
    by (cases "send conf tenant buf (net (length ([] :: 'a attempt list)))")
  show ?thesis
  proof (cases "retryable st")
    case False
    with assms s show ?thesis by (simp add: sendLoop_step [where tried = "[]"])
  next
    case True
    from sendLoop_extends [of conf tenant buf net "Wait bo" "(st, e)" "[(req, st, e)]"]
    obtain rest where "fst (sendLoop conf tenant buf net (Wait bo) (st, e) [(req, st, e)])
                         = [(req, st, e)] @ rest" ..
    with assms s True show ?thesis by (simp add: sendLoop_step [where tried = "[]"])
  qed
qed

lemma sendBatch_first:
  assumes "encodeJSON marshal ks b = Inr (buf, n)" and "0 < MaxRetries (BackoffConfig conf)"
  shows "\<exists>rest r. sendBatch marshal ks conf net tenant b
                    = Inr (send conf tenant buf (net 0) # rest, r)"
proof -
  from assms(2) have "Ongoing (New_backoff (BackoffConfig conf))"
    by (simp add: Ongoing_def New_backoff_def)
  from sendLoop_first [OF this, of conf tenant buf net "(0, None)"] obtain rest where
    "fst (sendLoop conf tenant buf net (New_backoff (BackoffConfig conf)) (0, None) [])
       = send conf tenant buf (net 0) # rest" ..
  then obtain r where
    "sendLoop conf tenant buf net (New_backoff (BackoffConfig conf)) (0, None) []
       = (send conf tenant buf (net 0) # rest, r)"
    by (cases "sendLoop conf tenant buf net (New_backoff (BackoffConfig conf)) (0, None) []")
       simp
  with assms(1) have "sendBatch marshal ks conf net tenant b
                    = Inr (send conf tenant buf (net 0) # rest, r)"
    by (simp add: sendBatch_def)
  then show ?thesis by blast
qed

text \<open>
  C3 (as amended). An attempt is retried exactly when the status that \<open>send\<close> returned
  is at most 0, is 429, or lies in 500..599; \<open>send\<close> returns - 1 when the request could not
  be made or no response arrived, and the status code of the response otherwise. While
  the backoff policy is ongoing the loop makes an attempt, stops after it if its status
  is not retried and goes on otherwise; when the policy is not ongoing the loop ends. A
  400 response ends the loop at that attempt with its error; a 2xx response ends it with
  no error.
\<close>

theorem retry_classification:
  "(retryable status \<longleftrightarrow> status \<le> 0 \<or> status = 429 \<or> (500 \<le> status \<and> status \<le> 599))
   \<and> fst (snd (send conf tenant buf DoFailed)) = - 1
   \<and> fst (snd (send conf tenant buf NewRequestFailed)) = - 1
   \<and> fst (snd (send conf tenant buf (Response code line))) = code
   \<and> (Ongoing bo \<and> send conf tenant buf (net (length tried)) = (req, st, err) \<longrightarrow>
        sendLoop conf tenant buf net bo r tried =
          (if retryable st
           then sendLoop conf tenant buf net (Wait bo) (st, err) (tried @ [(req, st, err)])
           else (tried @ [(req, st, err)], st, err)))
   \<and> (\<not> Ongoing bo \<longrightarrow> sendLoop conf tenant buf net bo r tried = (tried, r))
   \<and> (Ongoing bo \<and> net (length tried) = Response 400 line \<longrightarrow>
        sendLoop conf tenant buf net bo r tried =
          (tried @ [(Some (newRequest conf tenant buf), 400, Some (StatusError 400 line))],
           400, Some (StatusError 400 line)))
   \<and> (Ongoing bo \<and> net (length tried) = Response code line \<and> 200 \<le> code \<and> code \<le> 299 \<longrightarrow>
        sendLoop conf tenant buf net bo r tried =
          (tried @ [(Some (newRequest conf tenant buf), code, None)], code, None))"
proof (intro conjI impI)
  show "retryable status \<longleftrightarrow> status \<le> 0 \<or> status = 429 \<or> (500 \<le> status \<and> status \<le> 599)"
    by (rule retryable_iff)
  show "fst (snd (send conf tenant buf DoFailed)) = - 1"
    "fst (snd (send conf tenant buf NewRequestFailed)) = - 1"
    "fst (snd (send conf tenant buf (Response code line))) = code"
    by (rule send_status)+
next
  assume "Ongoing bo \<and> send conf tenant buf (net (length tried)) = (req, st, err)"
  then show "sendLoop conf tenant buf net bo r tried =
          (if retryable st
           then sendLoop conf tenant buf net (Wait bo) (st, err) (tried @ [(req, st, err)])
           else (tried @ [(req, st, err)], st, err))"
    by (intro sendLoop_step) simp_all
next
  assume "\<not> Ongoing bo"
  then show "sendLoop conf tenant buf net bo r tried = (tried, r)"
    by (rule sendLoop_stop)
next
  assume a: "Ongoing bo \<and> net (length tried) = Response 400 line"
  then have "send conf tenant buf (net (length tried))
      = (Some (newRequest conf tenant buf), 400, Some (StatusError 400 line))"
    by (simp add: send_400)
  with a show "sendLoop conf tenant buf net bo r tried =
          (tried @ [(Some (newRequest conf tenant buf), 400, Some (StatusError 400 line))],
           400, Some (StatusError 400 line))"
    by (simp add: sendLoop_step retryable_iff)
next
  assume a: "Ongoing bo \<and> net (length tried) = Response code line \<and> 200 \<le> code \<and> code \<le> 299"
  then have "send conf tenant buf (net (length tried))
      = (Some (newRequest conf tenant buf), code, None)"
    by (simp add: send_2xx)
  with a show "sendLoop conf tenant buf net bo r tried =
          (tried @ [(Some (newRequest conf tenant buf), code, None)], code, None)"
    by (simp add: sendLoop_step retryable_iff)
qed

lemma ex_attempts:
  "map (fst \<circ> snd)
     (fst (sendLoop ex_conf ''t'' ''{}'' ex_net (New_backoff (BackoffConfig ex_conf)) (0, None) []))
     = [500, 500, 200]"
  "snd (sendLoop ex_conf ''t'' ''{}'' ex_net (New_backoff (BackoffConfig ex_conf)) (0, None) [])
     = (200, None)"
  by (simp_all add: sendLoop.simps Ongoing_def Wait_def New_backoff_def ex_conf_def ex_net_def
        send_def retryable_def go_quot_def)

theorem retry_classification_witness:
  "Ongoing (New_backoff (BackoffConfig ex_conf))
   \<and> (\<lambda>i. Response 400 ''bad request'') (length ([] :: string attempt list)) = Response 400 ''bad request''
   \<and> sendLoop ex_conf ''t'' ''{}'' (\<lambda>i. Response 400 ''bad request'')
        (New_backoff (BackoffConfig ex_conf)) (0, None) []
       = ([(Some (newRequest ex_conf ''t'' ''{}''), 400, Some (StatusError 400 ''bad request''))],
          400, Some (StatusError 400 ''bad request''))
   \<and> (\<lambda>i. Response 204 '''') (length ([] :: string attempt list)) = Response 204 ''''
   \<and> sendLoop ex_conf ''t'' ''{}'' (\<lambda>i. Response 204 '''')
        (New_backoff (BackoffConfig ex_conf)) (0, None) []
       = ([(Some (newRequest ex_conf ''t'' ''{}''), 204, None)], 204, None)
   \<and> \<not> Ongoing ((New_backoff (BackoffConfig ex_conf))\<lparr>numRetries := 3\<rparr>)
   \<and> map (fst \<circ> snd)
        (fst (sendLoop ex_conf ''t'' ''{}'' ex_net (New_backoff (BackoffConfig ex_conf)) (0, None) []))
       = [500, 500, 200]
   \<and> snd (sendLoop ex_conf ''t'' ''{}'' ex_net (New_backoff (BackoffConfig ex_conf)) (0, None) [])
       = (200, None)"
proof -
  have on: "Ongoing (New_backoff (BackoffConfig ex_conf))"
    by (simp add: Ongoing_def New_backoff_def ex_conf_def)
  have off: "\<not> Ongoing ((New_backoff (BackoffConfig ex_conf))\<lparr>numRetries := 3\<rparr>)"
    by (simp add: Ongoing_def New_backoff_def ex_conf_def)
  from retry_classification
         [where conf = ex_conf and tenant = "''t''" and buf = "''{}''" and code = 204
            and line = "''''" and bo = "New_backoff (BackoffConfig ex_conf)"
            and net = "\<lambda>i. Response 204 ''''" and tried = "[]" and r = "(0, None)"]
       retry_classification
         [where conf = ex_conf and tenant = "''t''" and buf = "''{}''"
            and line = "''bad request''" and bo = "New_backoff (BackoffConfig ex_conf)"
            and net = "\<lambda>i. Response 400 ''bad request''" and tried = "[]" and r = "(0, None)"]
       on off ex_attempts
  show ?thesis by simp
qed

text \<open>
  C3 as stated fails: a failed connection makes \<open>send\<close> return - 1, which is not 0, 429
  or 5xx, and the loop retries it until the backoff policy ends.
\<close>

theorem retry_classification_counterexample:
  "send ex_conf ''t'' ''{}'' DoFailed
     = (Some (newRequest ex_conf ''t'' ''{}''), - 1, Some TransportError)
   \<and> retryable (- 1)
   \<and> \<not> ((- 1 :: int) = 0 \<or> (- 1 :: int) = 429 \<or> (500 \<le> (- 1 :: int) \<and> (- 1 :: int) \<le> 599))
   \<and> map (fst \<circ> snd)
        (fst (sendLoop ex_conf ''t'' ''{}'' (\<lambda>i. DoFailed) (New_backoff (BackoffConfig ex_conf))
               (0, None) []))
       = [- 1, - 1, - 1]"
proof -
  have "map (fst \<circ> snd)
        (fst (sendLoop ex_conf ''t'' ''{}'' (\<lambda>i. DoFailed) (New_backoff (BackoffConfig ex_conf))
               (0, None) []))
       = [- 1, - 1, - 1]"
    by (simp add: sendLoop.simps Ongoing_def Wait_def New_backoff_def ex_conf_def send_def)
  then show ?thesis
    by (simp add: send_def retryable_def)
qed

section \<open>The dispatcher: ticks, overflow and shutdown\<close>

lemma on_tick_absent:
  "batches d k = None \<Longrightarrow> batches (on_tick conf vs d) k = None"
  by (induction conf vs d rule: on_tick.induct) (auto split: option.splits)

lemma on_tick_eq:
  "distinct (map fst vs) \<Longrightarrow>
   on_tick conf vs d =
     d\<lparr>sent := sent d @ map (\<lambda>v. (fst v, the (batches d (fst v)))) (filter (due conf (batches d)) vs),
       batches := (\<lambda>k. if k \<in> fst ` set (filter (due conf (batches d)) vs) then None
                        else batches d k)\<rparr>"
proof (induction vs arbitrary: d)
  case Nil
  show ?case by simp
next
  case (Cons v vs)
  obtain k t where v: "v = (k, t)" by (cases v)
  from Cons.prems have dist: "distinct (map fst vs)" and k: "k \<notin> fst ` set vs"
    by (simp_all add: v)
  show ?case
  proof (cases "due conf (batches d) v")
    case False
    then have "on_tick conf (v # vs) d = on_tick conf vs d"
      by (auto simp: due_def v split: option.splits)
    with False show ?thesis
      by (simp add: Cons.IH [OF dist])
  next
    case True
    then obtain b where b: "batches d k = Some b" and old: "\<not> age t b < BatchWait conf"
      by (auto simp: due_def v split: option.splits)
    let ?d = "d\<lparr>sent := sent d @ [(k, b)], batches := (batches d)(k := None)\<rparr>"
    have same: "batches ?d (fst w) = batches d (fst w)" if "w \<in> set vs" for w
      using that k by auto
    then have due: "due conf (batches ?d) w = due conf (batches d) w" if "w \<in> set vs" for w
      using that by (simp add: due_def)
    have f: "filter (due conf (batches ?d)) vs = filter (due conf (batches d)) vs"
      by (rule filter_cong [OF refl]) (rule due)
    have m: "map (\<lambda>v. (fst v, the (batches ?d (fst v)))) (filter (due conf (batches d)) vs)
           = map (\<lambda>v. (fst v, the (batches d (fst v)))) (filter (due conf (batches d)) vs)"
    proof (rule map_cong [OF refl])
      fix w assume "w \<in> set (filter (due conf (batches d)) vs)"
      then have "w \<in> set vs" by simp
      then show "(fst w, the (batches ?d (fst w))) = (fst w, the (batches d (fst w)))"
        by (simp only: same)
    qed
    have "on_tick conf (v # vs) d = on_tick conf vs ?d"
      using b old by (simp add: v)
    also have "\<dots> = ?d\<lparr>sent := sent ?d @ map (\<lambda>v. (fst v, the (batches d (fst v))))
                                      (filter (due conf (batches d)) vs),
                 batches := (\<lambda>k. if k \<in> fst ` set (filter (due conf (batches d)) vs) then None
                        else batches ?d k)\<rparr>"
      by (simp only: Cons.IH [OF dist, of ?d] f m)
    finally show ?thesis
      using True b by (auto simp: v fun_eq_iff)
  qed
qed

lemma filter_fst_unique:
  "distinct (map fst vs) \<Longrightarrow> (k, t) \<in> set vs \<Longrightarrow> filter (\<lambda>v. fst v = k) vs = [(k, t)]"
proof (induction vs)
  case Nil
  then show ?case by simp
next
  case (Cons v vs)
  show ?case
  proof (cases "v = (k, t)")
    case True
    with Cons.prems have "k \<notin> fst ` set vs" by auto
    then have "filter (\<lambda>v. fst v = k) vs = []"
      by (auto simp: filter_empty_conv)
    with True show ?thesis by simp
  next
    case False
    with Cons.prems have "(k, t) \<in> set vs" "fst v \<noteq> k"
      by (auto simp: image_iff)
    with Cons show ?thesis by simp
  qed
qed

lemma filter_fst_none:
  "k \<notin> fst ` set vs \<Longrightarrow> filter (\<lambda>v. fst v = k) vs = []"
  by (auto simp: filter_empty_conv)

lemma visit_times_Cons:
  "visit_times k (vs # ticks) = map snd (filter (\<lambda>v. fst v = k) vs) @ visit_times k ticks"
  by (simp add: visit_times_def)

lemma visit_times_append:
  "visit_times k (ticks1 @ ticks2) = visit_times k ticks1 @ visit_times k ticks2"
  by (simp add: visit_times_def)

lemma ticks_absent:
  "batches d k = None \<Longrightarrow> batches (foldl (step S conf) d (map Tick ticks)) k = None"
  by (induction ticks arbitrary: d) (simp_all add: on_tick_absent)

lemma visits_ok_absent:
  "visits_ok S conf d (map Tick ticks) \<Longrightarrow> batches d k = None \<Longrightarrow> visit_times k ticks = []"
proof (induction ticks arbitrary: d)
  case Nil
  show ?case by (simp add: visit_times_def)
next
  case (Cons vs ticks)
  from Cons.prems have "k \<notin> fst ` set vs"
    by (auto simp: range_order_def)
  then have "filter (\<lambda>v. fst v = k) vs = []" by (rule filter_fst_none)
  moreover have "visit_times k ticks = []"
    using Cons.prems by (intro Cons.IH [of "on_tick conf vs d"]) (simp_all add: on_tick_absent)
  ultimately show ?case by (simp add: visit_times_Cons)
qed

lemma ticks_one_tenant:
  assumes "visits_ok S conf d (map Tick ticks)" and "batches d k = Some b"
  shows "((\<forall>t\<in>set (visit_times k ticks). age t b < BatchWait conf)
          \<and> batches (foldl (step S conf) d (map Tick ticks)) k = Some b)
       \<or> (\<exists>ticks1 vs ticks2 t.
            ticks = ticks1 @ vs # ticks2 \<and> (k, t) \<in> set vs \<and> BatchWait conf \<le> age t b
            \<and> (\<forall>t'\<in>set (visit_times k ticks1). age t' b < BatchWait conf)
            \<and> visit_times k ticks = visit_times k ticks1 @ [t]
            \<and> batches (foldl (step S conf) d (map Tick ticks1)) k = Some b
            \<and> batches (foldl (step S conf) d (map Tick (ticks1 @ [vs]))) k = None
            \<and> (k, b) \<in> set (sent (foldl (step S conf) d (map Tick (ticks1 @ [vs])))))"
  using assms
proof (induction ticks arbitrary: d)
  case Nil
  then show ?case by (simp add: visit_times_def)
next
  case (Cons vs ticks)
  from Cons.prems have dist: "distinct (map fst vs)" and "k \<in> fst ` set vs"
    and ok: "visits_ok S conf (on_tick conf vs d) (map Tick ticks)"
    by (auto simp: range_order_def)
  then obtain t where t: "(k, t) \<in> set vs" by auto
  have only: "filter (\<lambda>v. fst v = k) vs = [(k, t)]"
    using dist t by (rule filter_fst_unique)
  have due_k: "k \<in> fst ` set (filter (due conf (batches d)) vs) \<longleftrightarrow> BatchWait conf \<le> age t b"
  proof
    assume "k \<in> fst ` set (filter (due conf (batches d)) vs)"
    then obtain v where v: "v \<in> set vs" "fst v = k" "due conf (batches d) v" by auto
    then have "v \<in> set (filter (\<lambda>v. fst v = k) vs)" by simp
    then have "v = (k, t)" by (simp add: only)
    with v Cons.prems(2) show "BatchWait conf \<le> age t b" by (simp add: due_def)
  next
    assume "BatchWait conf \<le> age t b"
    with Cons.prems(2) have "due conf (batches d) (k, t)" by (simp add: due_def)
    with t show "k \<in> fst ` set (filter (due conf (batches d)) vs)" by force
  qed
  show ?case
  proof (cases "BatchWait conf \<le> age t b")
    case True
    then have gone: "batches (on_tick conf vs d) k = None"
      by (simp add: on_tick_eq [OF dist] due_k del: set_filter)
    have "due conf (batches d) (k, t)"
      using True Cons.prems(2) by (simp add: due_def)
    with t have "(k, t) \<in> set (filter (due conf (batches d)) vs)" by simp
    then have "(fst (k, t), the (batches d (fst (k, t))))
                 \<in> set (map (\<lambda>v. (fst v, the (batches d (fst v)))) (filter (due conf (batches d)) vs))"
      unfolding set_map by (rule imageI)
    then have sent: "(k, b) \<in> set (sent (on_tick conf vs d))"
      using Cons.prems(2) by (simp add: on_tick_eq [OF dist] del: set_filter set_map)
    have "visit_times k ticks = []"
      using ok gone by (rule visits_ok_absent)
    then have "visit_times k (vs # ticks) = visit_times k [] @ [t]"
      by (simp add: visit_times_Cons only) (simp add: visit_times_def)
    with True t gone sent Cons.prems(2) have
      "vs # ticks = [] @ vs # ticks \<and> (k, t) \<in> set vs \<and> BatchWait conf \<le> age t b
            \<and> (\<forall>t'\<in>set (visit_times k []). age t' b < BatchWait conf)
            \<and> visit_times k (vs # ticks) = visit_times k [] @ [t]
            \<and> batches (foldl (step S conf) d (map Tick [])) k = Some b
            \<and> batches (foldl (step S conf) d (map Tick ([] @ [vs]))) k = None
            \<and> (k, b) \<in> set (sent (foldl (step S conf) d (map Tick ([] @ [vs]))))"
      by (simp add: visit_times_def)
    then show ?thesis by blast
  next
    case False
    then have still: "batches (on_tick conf vs d) k = Some b"
      using Cons.prems(2) by (simp add: on_tick_eq [OF dist] due_k del: set_filter)
    from Cons.IH [OF ok still] show ?thesis
    proof
      assume "(\<forall>t\<in>set (visit_times k ticks). age t b < BatchWait conf)
          \<and> batches (foldl (step S conf) (on_tick conf vs d) (map Tick ticks)) k = Some b"
      with False have "(\<forall>t\<in>set (visit_times k (vs # ticks)). age t b < BatchWait conf)
          \<and> batches (foldl (step S conf) d (map Tick (vs # ticks))) k = Some b"
        by (simp add: visit_times_Cons only)
      then show ?thesis ..
    next
      assume "\<exists>ticks1 ws ticks2 u.
            ticks = ticks1 @ ws # ticks2 \<and> (k, u) \<in> set ws \<and> BatchWait conf \<le> age u b
            \<and> (\<forall>t'\<in>set (visit_times k ticks1). age t' b < BatchWait conf)
            \<and> visit_times k ticks = visit_times k ticks1 @ [u]
            \<and> batches (foldl (step S conf) (on_tick conf vs d) (map Tick ticks1)) k = Some b
            \<and> batches (foldl (step S conf) (on_tick conf vs d) (map Tick (ticks1 @ [ws]))) k = None
            \<and> (k, b) \<in> set (sent (foldl (step S conf) (on_tick conf vs d) (map Tick (ticks1 @ [ws]))))"
      then obtain ticks1 ws ticks2 u where
        "ticks = ticks1 @ ws # ticks2" "(k, u) \<in> set ws" "BatchWait conf \<le> age u b"
        "\<forall>t'\<in>set (visit_times k ticks1). age t' b < BatchWait conf"
        "visit_times k ticks = visit_times k ticks1 @ [u]"
        "batches (foldl (step S conf) (on_tick conf vs d) (map Tick ticks1)) k = Some b"
        "batches (foldl (step S conf) (on_tick conf vs d) (map Tick (ticks1 @ [ws]))) k = None"
        "(k, b) \<in> set (sent (foldl (step S conf) (on_tick conf vs d) (map Tick (ticks1 @ [ws]))))"
        by blast
      with False have
        "vs # ticks = (vs # ticks1) @ ws # ticks2 \<and> (k, u) \<in> set ws \<and> BatchWait conf \<le> age u b
            \<and> (\<forall>t'\<in>set (visit_times k (vs # ticks1)). age t' b < BatchWait conf)
            \<and> visit_times k (vs # ticks) = visit_times k (vs # ticks1) @ [u]
            \<and> batches (foldl (step S conf) d (map Tick (vs # ticks1))) k = Some b
            \<and> batches (foldl (step S conf) d (map Tick ((vs # ticks1) @ [ws]))) k = None
            \<and> (k, b) \<in> set (sent (foldl (step S conf) d (map Tick ((vs # ticks1) @ [ws]))))"
        by (simp add: visit_times_Cons only)
      then show ?thesis by blast
    qed
  qed
qed

lemma go_quot_nonneg: "0 \<le> a \<Longrightarrow> 0 < b \<Longrightarrow> go_quot a b = a div b"
  by (simp add: go_quot_def)

lemma flush_window:
  fixes ts1 :: "int list"
  assumes ts: "ts = ts1 @ [t]"
    and young: "\<forall>t'\<in>set ts1. t' - c < W"
    and W: "0 \<le> W"
    and first: "hd ts \<le> c + P"
    and gaps: "\<forall>i. Suc i < length ts \<longrightarrow> ts ! Suc i \<le> ts ! i + P"
  shows "t \<le> c + W + P"
proof (cases ts1 rule: rev_cases)
  case Nil
  with ts first W show ?thesis by simp
next
  case (snoc ts0 u)
  with young have u: "u - c < W" by simp
  from ts snoc have "ts ! Suc (length ts0) = t" "ts ! length ts0 = u" "Suc (length ts0) < length ts"
    by (simp_all add: nth_append)
  with gaps have "t \<le> u + P" by metis
  with u show ?thesis by simp
qed

text \<open>
  C5 (as amended). The period of the age check is the larger of 10ms and
  \<open>BatchWait / 10\<close>. A tick whose visits range over the pending map sends and removes
  exactly the batches that are due, that is whose age at the visit is at least
  \<open>BatchWait\<close>, and keeps the others. For a pending batch that only ticks reach (no entry,
  no shutdown), checked for the first time at most one period after its creation and
  then at most one period apart until a check at or after \<open>createdAt + BatchWait\<close>: the
  batch is still pending before some tick, that tick sends and removes it, and the clock
  reading \<open>t\<close> of that check satisfies
  \<open>createdAt + BatchWait \<le> t \<le> createdAt + BatchWait + period\<close>.
\<close>

theorem age_check:
  "maxWaitCheckFrequency conf = max (10 * Millisecond) (go_quot (BatchWait conf) 10)
   \<and> (0 \<le> BatchWait conf \<longrightarrow>
        maxWaitCheckFrequency conf = max 10000000 (BatchWait conf div 10))
   \<and> (range_order (map fst vs) (batches d) \<longrightarrow>
        sent (on_tick conf vs d)
          = sent d @ map (\<lambda>v. (fst v, the (batches d (fst v)))) (filter (due conf (batches d)) vs)
        \<and> batches (on_tick conf vs d)
          = (\<lambda>k. if k \<in> fst ` set (filter (due conf (batches d)) vs) then None
                   else batches d k))
   \<and> (visits_ok S conf d' (map Tick ticks) \<and> batches d' k = Some b
       \<and> 0 \<le> BatchWait conf \<and> visit_times k ticks \<noteq> []
       \<and> hd (visit_times k ticks) \<le> createdAt b + maxWaitCheckFrequency conf
       \<and> (\<forall>i. Suc i < length (visit_times k ticks) \<longrightarrow>
              visit_times k ticks ! Suc i \<le> visit_times k ticks ! i + maxWaitCheckFrequency conf)
       \<and> createdAt b + BatchWait conf \<le> last (visit_times k ticks) \<longrightarrow>
       (\<exists>ticks1 ws ticks2 t.
          ticks = ticks1 @ ws # ticks2 \<and> (k, t) \<in> set ws
          \<and> batches (foldl (step S conf) d' (map Tick ticks1)) k = Some b
          \<and> batches (foldl (step S conf) d' (map Tick (ticks1 @ [ws]))) k = None
          \<and> (k, b) \<in> set (sent (foldl (step S conf) d' (map Tick (ticks1 @ [ws]))))
          \<and> createdAt b + BatchWait conf \<le> t
          \<and> t \<le> createdAt b + BatchWait conf + maxWaitCheckFrequency conf))"
proof (intro conjI impI)
  show "maxWaitCheckFrequency conf = max (10 * Millisecond) (go_quot (BatchWait conf) 10)"
    by (simp add: maxWaitCheckFrequency_def Let_def max_def)
  then show "maxWaitCheckFrequency conf = max 10000000 (BatchWait conf div 10)"
    if "0 \<le> BatchWait conf"
    using that by (simp add: go_quot_nonneg Millisecond_def)
next
  assume "range_order (map fst vs) (batches d)"
  then have dist: "distinct (map fst vs)" by (simp add: range_order_def)
  show "sent (on_tick conf vs d)
          = sent d @ map (\<lambda>v. (fst v, the (batches d (fst v)))) (filter (due conf (batches d)) vs)"
    by (simp add: on_tick_eq [OF dist])
  show "batches (on_tick conf vs d)
          = (\<lambda>k. if k \<in> fst ` set (filter (due conf (batches d)) vs) then None
                   else batches d k)"
    by (simp add: on_tick_eq [OF dist])
next
  let ?ts = "visit_times k ticks" and ?P = "maxWaitCheckFrequency conf"
  assume a: "visits_ok S conf d' (map Tick ticks) \<and> batches d' k = Some b
       \<and> 0 \<le> BatchWait conf \<and> ?ts \<noteq> []
       \<and> hd ?ts \<le> createdAt b + ?P
       \<and> (\<forall>i. Suc i < length ?ts \<longrightarrow> ?ts ! Suc i \<le> ?ts ! i + ?P)
       \<and> createdAt b + BatchWait conf \<le> last ?ts"
  then have "last ?ts \<in> set ?ts" "BatchWait conf \<le> age (last ?ts) b"
    by (simp_all add: age_def)
  then have "\<not> (\<forall>t\<in>set ?ts. age t b < BatchWait conf)"
    by (metis not_less)
  with a ticks_one_tenant [of S conf d' ticks k b]
  obtain ticks1 ws ticks2 t where
    f: "ticks = ticks1 @ ws # ticks2" "(k, t) \<in> set ws" "BatchWait conf \<le> age t b"
       "\<forall>t'\<in>set (visit_times k ticks1). age t' b < BatchWait conf"
       "?ts = visit_times k ticks1 @ [t]"
       "batches (foldl (step S conf) d' (map Tick ticks1)) k = Some b"
       "batches (foldl (step S conf) d' (map Tick (ticks1 @ [ws]))) k = None"
       "(k, b) \<in> set (sent (foldl (step S conf) d' (map Tick (ticks1 @ [ws]))))"
    by blast
  from f(4) have young: "\<forall>t'\<in>set (visit_times k ticks1). t' - createdAt b < BatchWait conf"
    by (simp add: age_def)
  have "t \<le> createdAt b + BatchWait conf + ?P"
    using f(5) young a by (intro flush_window [of ?ts "visit_times k ticks1" t]) simp_all
  moreover from f(3) have "createdAt b + BatchWait conf \<le> t"
    by (simp add: age_def)
  ultimately show "\<exists>ticks1 ws ticks2 t.
          ticks = ticks1 @ ws # ticks2 \<and> (k, t) \<in> set ws
          \<and> batches (foldl (step S conf) d' (map Tick ticks1)) k = Some b
          \<and> batches (foldl (step S conf) d' (map Tick (ticks1 @ [ws]))) k = None
          \<and> (k, b) \<in> set (sent (foldl (step S conf) d' (map Tick (ticks1 @ [ws]))))
          \<and> createdAt b + BatchWait conf \<le> t
          \<and> t \<le> createdAt b + BatchWait conf + ?P"
    using f(1,2,6,7,8) by blast
qed

theorem age_check_witness:
  "maxWaitCheckFrequency ex_conf = 10000000
   \<and> range_order (map fst [(''t'', 30000000 :: int)]) (batches ex_pending)
   \<and> on_tick ex_conf [(''t'', 30000000)] ex_pending
       = \<lparr>batches = Map.empty, sent = [(''t'', newBatch String_app 0 [ex1])]\<rparr>
   \<and> visits_ok String_app ex_conf ex_pending (map Tick ex_ticks)
   \<and> batches ex_pending ''t'' = Some (newBatch String_app 0 [ex1])
   \<and> 0 \<le> BatchWait ex_conf
   \<and> visit_times ''t'' ex_ticks = [10000000, 20000000, 30000000]
   \<and> hd (visit_times ''t'' ex_ticks)
       \<le> createdAt (newBatch String_app 0 [ex1]) + maxWaitCheckFrequency ex_conf
   \<and> visit_times ''t'' ex_ticks ! 1 \<le> visit_times ''t'' ex_ticks ! 0 + maxWaitCheckFrequency ex_conf
   \<and> visit_times ''t'' ex_ticks ! 2 \<le> visit_times ''t'' ex_ticks ! 1 + maxWaitCheckFrequency ex_conf
   \<and> createdAt (newBatch String_app 0 [ex1]) + BatchWait ex_conf \<le> last (visit_times ''t'' ex_ticks)
   \<and> last (visit_times ''t'' ex_ticks)
       \<le> createdAt (newBatch String_app 0 [ex1]) + BatchWait ex_conf + maxWaitCheckFrequency ex_conf
   \<and> batches (foldl (step String_app ex_conf) ex_pending (map Tick (take 2 ex_ticks))) ''t''
       = Some (newBatch String_app 0 [ex1])
   \<and> foldl (step String_app ex_conf) ex_pending (map Tick ex_ticks)
       = \<lparr>batches = Map.empty, sent = [(''t'', newBatch String_app 0 [ex1])]\<rparr>"
proof -
  have created: "createdAt (newBatch String_app 0 [ex1]) = 0"
    by (simp add: newBatch_def add_def Let_def)
  have P: "maxWaitCheckFrequency ex_conf = 10000000"
    by (simp add: maxWaitCheckFrequency_def ex_conf_def go_quot_def Millisecond_def)
  have order: "range_order (map fst [(''t'', 30000000 :: int)]) (batches ex_pending)"
    by (simp add: range_order_def ex_pending_def)
  have ok: "visits_ok String_app ex_conf ex_pending (map Tick ex_ticks)"
    by (simp add: ex_ticks_def ex_pending_def ex_conf_def range_order_def age_def created)
  have ts: "visit_times ''t'' ex_ticks = [10000000, 20000000, 30000000]"
    by (simp add: visit_times_def ex_ticks_def)
  have gaps: "\<forall>i. Suc i < length (visit_times ''t'' ex_ticks) \<longrightarrow>
              visit_times ''t'' ex_ticks ! Suc i
                \<le> visit_times ''t'' ex_ticks ! i + maxWaitCheckFrequency ex_conf"
    by (simp add: ts P less_Suc_eq nth_Cons')
  have pend: "batches ex_pending ''t'' = Some (newBatch String_app 0 [ex1])"
    by (simp add: ex_pending_def)
  have W: "0 \<le> BatchWait ex_conf" "createdAt (newBatch String_app 0 [ex1]) + BatchWait ex_conf
             \<le> last (visit_times ''t'' ex_ticks)"
    by (simp_all add: ts created ex_conf_def)
  have run2: "batches (foldl (step String_app ex_conf) ex_pending (map Tick (take 2 ex_ticks))) ''t''
       = Some (newBatch String_app 0 [ex1])"
    by (simp add: ex_ticks_def ex_pending_def ex_conf_def age_def created)
  have run3: "foldl (step String_app ex_conf) ex_pending (map Tick ex_ticks)
       = \<lparr>batches = Map.empty, sent = [(''t'', newBatch String_app 0 [ex1])]\<rparr>"
    by (simp add: ex_ticks_def ex_pending_def ex_conf_def age_def created)
  have tick: "on_tick ex_conf [(''t'', 30000000)] ex_pending
       = \<lparr>batches = Map.empty, sent = [(''t'', newBatch String_app 0 [ex1])]\<rparr>"
    by (simp add: ex_pending_def ex_conf_def age_def created)
  from age_check [of ex_conf "[(''t'', 30000000)]" ex_pending String_app ex_pending ex_ticks
         "''t''" "newBatch String_app 0 [ex1]"]
  have "(\<exists>ticks1 ws ticks2 t.
          ex_ticks = ticks1 @ ws # ticks2 \<and> (''t'', t) \<in> set ws
          \<and> createdAt (newBatch String_app 0 [ex1]) + BatchWait ex_conf \<le> t
          \<and> t \<le> createdAt (newBatch String_app 0 [ex1]) + BatchWait ex_conf
                  + maxWaitCheckFrequency ex_conf)"
    using ok pend W gaps ts P created by auto
  moreover have "BatchWait ex_conf = 30000000"
    by (simp add: ex_conf_def)
  ultimately show ?thesis
    using P order tick ok pend ts run2 run3 created by simp
qed

text \<open>
  C5 as stated fails: the dispatcher calls \<open>sendBatch\<close> inside the loop of the tick, so
  the age of the next batch is read only when that call has returned. With a batch wait
  of 30ms and a period of 10ms, the batch of \<open>t\<close>, created at 0 and not due at 10ms and
  20ms, is checked in the third tick at 230ms and sent then, later than 40ms. And a
  shutdown sends a pending batch without any age check.
\<close>

theorem age_check_counterexample:
  "visits_ok String_app ex_conf ex_two (map Tick ex_late)
   \<and> batches ex_two ''t'' = Some (newBatch String_app 0 [ex1])
   \<and> createdAt (newBatch String_app 0 [ex1]) + BatchWait ex_conf + maxWaitCheckFrequency ex_conf
       = 40000000
   \<and> batches (foldl (step String_app ex_conf) ex_two (map Tick (take 2 ex_late))) ''t''
       = Some (newBatch String_app 0 [ex1])
   \<and> sent (foldl (step String_app ex_conf) ex_two (map Tick (take 2 ex_late))) = []
   \<and> sent (foldl (step String_app ex_conf) ex_two (map Tick ex_late))
       = [(''u'', newBatch String_app 0 [ex4]), (''t'', newBatch String_app 0 [ex1])]
   \<and> visit_times ''t'' ex_late = [10000000, 20000000, 230000000]
   \<and> createdAt (newBatch String_app 0 [ex1]) + BatchWait ex_conf + maxWaitCheckFrequency ex_conf
       < last (visit_times ''t'' ex_late)
   \<and> sent (run String_app ex_conf [Entry ex1 0] [''t'']) = [(''t'', newBatch String_app 0 [ex1])]"
proof -
  have created: "createdAt (newBatch String_app 0 [ex1]) = 0"
    "createdAt (newBatch String_app 0 [ex4]) = 0"
    by (simp_all add: newBatch_single)
  have P: "maxWaitCheckFrequency ex_conf = 10000000"
    by (simp add: maxWaitCheckFrequency_def ex_conf_def go_quot_def Millisecond_def)
  have W: "BatchWait ex_conf = 30000000"
    by (simp add: ex_conf_def)
  have ok: "visits_ok String_app ex_conf ex_two (map Tick ex_late)"
    by (simp add: ex_late_def ex_two_def W range_order_def age_def created insert_commute)
  have two: "foldl (step String_app ex_conf) ex_two (map Tick (take 2 ex_late)) = ex_two"
    by (simp add: ex_late_def ex_two_def W age_def created)
  have three: "sent (foldl (step String_app ex_conf) ex_two (map Tick ex_late))
       = [(''u'', newBatch String_app 0 [ex4]), (''t'', newBatch String_app 0 [ex1])]"
    by (simp add: ex_late_def ex_two_def W age_def created)
  have ts: "visit_times ''t'' ex_late = [10000000, 20000000, 230000000]"
    by (simp add: visit_times_def ex_late_def)
  have stop: "sent (run String_app ex_conf [Entry ex1 0] [''t''])
                = [(''t'', newBatch String_app 0 [ex1])]"
    by (simp add: run_def on_entry_def ex1_def)
  show ?thesis
    by (simp add: ok two three ts stop created P W) (simp add: ex_two_def)
qed

text \<open>
  C1. The overflow rule fails on the code for the size that the batch would have after
  the entry is added. The pending batch of tenant \<open>t\<close> holds 2 bytes, the arriving entry
  has a line of 3 bytes and \<open>BatchSize\<close> is 4: the size after adding the entry, 5,
  exceeds \<open>BatchSize\<close>, but \<open>sizeBytesAfter\<close> is 4, the test of the dispatcher fails,
  no batch is sent and the entry is added to the old batch, which then holds 5 bytes.
\<close>

theorem overflow_not_flushed:
  "batches ex_pending (tenantID ex2) = Some (newBatch String_app 0 [ex1])
   \<and> sizeBytes (newBatch String_app 0 [ex1]) = 2
   \<and> length (snd (val ex2)) = 3
   \<and> BatchSize (ex_conf\<lparr>BatchSize := 4\<rparr>) = 4
   \<and> BatchSize (ex_conf\<lparr>BatchSize := 4\<rparr>)
       <s sizeBytes (newBatch String_app 0 [ex1]) + of_nat (length (snd (val ex2)))
   \<and> \<not> BatchSize (ex_conf\<lparr>BatchSize := 4\<rparr>) <s sizeBytesAfter (newBatch String_app 0 [ex1]) ex2
   \<and> on_entry String_app (ex_conf\<lparr>BatchSize := 4\<rparr>) ex2 5 ex_pending
       = \<lparr>batches = [''t'' \<mapsto> add String_app (newBatch String_app 0 [ex1]) ex2], sent = []\<rparr>
   \<and> sizeBytes (add String_app (newBatch String_app 0 [ex1]) ex2) = 5
   \<and> BatchSize (ex_conf\<lparr>BatchSize := 4\<rparr>)
       <s sizeBytes (add String_app (newBatch String_app 0 [ex1]) ex2)"
proof -
  have size: "sizeBytes (newBatch String_app 0 [ex1]) = 2"
    by (simp add: sizeBytes_def newBatch_single ex1_def)
  have line: "length (snd (val ex2)) = 3"
    by (simp add: ex2_def)
  have after: "sizeBytesAfter (newBatch String_app 0 [ex1]) ex2 = 4"
    using size by (simp add: sizeBytesAfter_def sizeBytes_def len_Value_def elems_def)
  have added: "sizeBytes (add String_app (newBatch String_app 0 [ex1]) ex2) = 5"
    using size line by (simp add: sizeBytes_def add_bytes)
  have pending: "batches ex_pending (tenantID ex2) = Some (newBatch String_app 0 [ex1])"
    by (simp add: ex_pending_def ex2_def)
  have tenant: "tenantID ex2 = ''t''"
    by (simp add: ex2_def)
  have step: "on_entry String_app (ex_conf\<lparr>BatchSize := 4\<rparr>) ex2 5 ex_pending
       = \<lparr>batches = [''t'' \<mapsto> add String_app (newBatch String_app 0 [ex1]) ex2], sent = []\<rparr>"
    using pending by (simp add: on_entry_def after tenant) (simp add: ex_pending_def)
  show ?thesis
    by (simp add: size line after added pending step)
qed

lemma in_batch_add: "in_batch S e b \<Longrightarrow> in_batch S e (add S b e')"
  by (auto simp: in_batch_def add_streams split: option.splits)

lemma in_batch_add_self: "in_batch S e (add S b e)"
  by (auto simp: in_batch_def add_streams split: option.splits)

lemma in_batch_newBatch: "in_batch S e (newBatch S now [e])"
  by (simp add: in_batch_def newBatch_single)

lemma attempted_append: "attempted S (xs @ ys) e \<longleftrightarrow> attempted S xs e \<or> attempted S ys e"
  by (simp add: attempted_def)

lemma attempted_single: "attempted S [(t, b)] e \<longleftrightarrow> t = tenantID e \<and> in_batch S e b"
  by (simp add: attempted_def)

lemma on_entry_held: "held S d e \<Longrightarrow> held S (on_entry S conf e' now d) e"
  by (auto simp: held_def on_entry_def attempted_append attempted_single in_batch_add
           split: option.splits)

lemma on_entry_held_self: "held S (on_entry S conf e now d) e"
  by (auto simp: held_def on_entry_def attempted_append attempted_single in_batch_add_self
             in_batch_newBatch
           split: option.splits)

lemma on_tick_held: "held S d e \<Longrightarrow> held S (on_tick conf vs d) e"
proof (induction conf vs d rule: on_tick.induct)
  case (1 conf d)
  then show ?case by simp
next
  case (2 conf tenant now visits d)
  show ?case
  proof (cases "batches d tenant")
    case None
    with 2 show ?thesis by simp
  next
    case (Some b)
    show ?thesis
    proof (cases "age now b < BatchWait conf")
      case True
      with 2 Some show ?thesis by simp
    next
      case False
      let ?d = "d\<lparr>sent := sent d @ [(tenant, b)], batches := (batches d)(tenant := None)\<rparr>"
      from "2.prems" Some have "held S ?d e"
        by (auto simp: held_def attempted_append attempted_single split: option.splits)
      with "2.IH"(3) [OF Some False] Some False show ?thesis by simp
    qed
  qed
qed

lemma step_held: "held S d e \<Longrightarrow> held S (step S conf d ev) e"
  by (cases ev) (simp_all add: on_entry_held on_tick_held)

lemma steps_held: "held S d e \<Longrightarrow> held S (foldl (step S conf) d evs) e"
  by (induction evs arbitrary: d) (simp_all add: step_held)

lemma steps_held_entry:
  "Entry e now \<in> set evs \<Longrightarrow> held S (foldl (step S conf) d evs) e"
proof (induction evs arbitrary: d)
  case Nil
  then show ?case by simp
next
  case (Cons ev evs)
  show ?case
  proof (cases "ev = Entry e now")
    case True
    have "held S (on_entry S conf e now d) e" by (rule on_entry_held_self)
    then show ?thesis by (simp add: True steps_held)
  next
    case False
    with Cons.prems have "Entry e now \<in> set evs" by simp
    then show ?thesis by (simp add: Cons.IH)
  qed
qed

lemma drain_eq:
  "drain ks d = d\<lparr>sent := sent d @ concat (map (\<lambda>k. case batches d k of None \<Rightarrow> []
                                                      | Some b \<Rightarrow> [(k, b)]) ks)\<rparr>"
  by (induction ks d rule: drain.induct) (simp_all split: option.splits)

lemma drain_range:
  assumes "range_order ks (batches d)"
  shows "drain ks d = d\<lparr>sent := sent d @ map (\<lambda>k. (k, the (batches d k))) ks\<rparr>"
proof -
  have "set ks \<subseteq> dom (batches d) \<Longrightarrow>
        concat (map (\<lambda>k. case batches d k of None \<Rightarrow> [] | Some b \<Rightarrow> [(k, b)]) ks)
          = map (\<lambda>k. (k, the (batches d k))) ks"
    by (induction ks) auto
  with assms show ?thesis by (simp add: drain_eq range_order_def)
qed

lemma drain_held:
  assumes "range_order ks (batches d)" and "held S d e"
  shows "attempted S (sent (drain ks d)) e"
proof (cases "attempted S (sent d) e")
  case True
  then show ?thesis by (simp add: drain_range [OF assms(1)] attempted_append)
next
  case False
  with assms(2) obtain b where b: "batches d (tenantID e) = Some b" "in_batch S e b"
    by (auto simp: held_def split: option.splits)
  with assms(1) have "tenantID e \<in> set ks" by (auto simp: range_order_def)
  then have "(tenantID e, the (batches d (tenantID e))) \<in> set (map (\<lambda>k. (k, the (batches d k))) ks)"
    unfolding set_map by (rule imageI)
  with b have "attempted S (map (\<lambda>k. (k, the (batches d k))) ks) e"
    unfolding attempted_def list_ex_iff by force
  then show ?thesis by (simp add: drain_range [OF assms(1)] attempted_append)
qed

lemma reach_inv:
  assumes "reach S s"
  shows "(quit (client s) \<longrightarrow> once (client s))
       \<and> wg (client s) = (if returned s then 0 else 1)
       \<and> (\<forall>e\<in>set (accepted s). held S (loop s) e)
       \<and> (returned s \<longrightarrow> (\<forall>e\<in>set (accepted s). attempted S (sent (loop s)) e))"
  using assms
proof (induction rule: reach.induct)
  case (start c ext)
  show ?case by (simp add: NewWithLogger_def)
next
  case (recv s e now)
  then show ?case by (simp add: on_entry_held on_entry_held_self)
next
  case (tick s visits)
  then show ?case by (simp add: on_tick_held)
next
  case (stop s c')
  from stop.hyps(2) have "c' = client s \<or> c' = (client s)\<lparr>once := True, quit := True\<rparr>"
    by (auto simp: once_Do_close_def close_quit_def split: if_splits)
  with stop.IH show ?case by auto
next
  case (exit s ks c')
  from exit.hyps(5) have c': "c' = (client s)\<lparr>wg := wg (client s) - 1\<rparr>"
    by (simp add: wg_Done_def split: if_splits)
  from exit.IH exit.hyps(2) have wg: "wg (client s) = 1" by simp
  have "attempted S (sent (drain ks (loop s))) e" if "e \<in> set (accepted s)" for e
    using exit.hyps(4) exit.IH that by (intro drain_held) simp_all
  then show ?case
    using exit.IH by (simp add: c' wg held_def)
qed

text \<open>
  C7. The deferred function of \<open>run\<close> calls \<open>sendBatch\<close> once for every pending batch.
  Every entry received before the quit case is selected is in the batch of some
  \<open>sendBatch\<close> call of the run, and a \<open>sendBatch\<close> call whose batch encodes makes at
  least one \<open>send\<close> attempt with the payload when the backoff policy allows a retry at
  all. In every reachable state of the client: \<open>wg.Wait\<close> of
  \<open>Stop\<close> can return exactly when \<open>run\<close> has returned, and then every accepted entry
  has been attempted; the first statement of \<open>Stop\<close> never panics and changes nothing
  once it has been executed; \<open>wg.Done\<close> of the returning dispatcher never panics.
\<close>

theorem shutdown_drains:
  "(range_order ks (batches d) \<longrightarrow>
      drain ks d = d\<lparr>sent := sent d @ map (\<lambda>k. (k, the (batches d k))) ks\<rparr>)
   \<and> (range_order ks' (batches (foldl (step S conf) \<lparr>batches = Map.empty, sent = []\<rparr> evs))
       \<and> Entry e now \<in> set evs \<longrightarrow>
      attempted S (sent (run S conf evs ks')) e)
   \<and> (reach S s \<longrightarrow>
        (wg_Wait_returns (client s) \<longleftrightarrow> returned s)
      \<and> (returned s \<longrightarrow> (\<forall>e\<in>set (accepted s). attempted S (sent (loop s)) e))
      \<and> (\<exists>c'. once_Do_close (client s) = Inr c' \<and> (once (client s) \<longrightarrow> c' = client s))
      \<and> (\<not> returned s \<longrightarrow> (\<exists>c'. wg_Done (client s) = Inr c')))
   \<and> (encodeJSON marshal ks0 b0 = Inr (buf, n) \<and> 0 < MaxRetries (BackoffConfig conf') \<longrightarrow>
        (\<exists>rest r. sendBatch marshal ks0 conf' net tenant b0
                    = Inr (send conf' tenant buf (net 0) # rest, r)))"
proof (intro conjI impI)
  assume "range_order ks (batches d)"
  then show "drain ks d = d\<lparr>sent := sent d @ map (\<lambda>k. (k, the (batches d k))) ks\<rparr>"
    by (rule drain_range)
next
  assume "encodeJSON marshal ks0 b0 = Inr (buf, n) \<and> 0 < MaxRetries (BackoffConfig conf')"
  then show "\<exists>rest r. sendBatch marshal ks0 conf' net tenant b0
                    = Inr (send conf' tenant buf (net 0) # rest, r)"
    by (intro sendBatch_first [of marshal ks0 b0 buf n]) simp_all
next
  let ?d = "foldl (step S conf) \<lparr>batches = Map.empty, sent = []\<rparr> evs"
  assume a: "range_order ks' (batches ?d) \<and> Entry e now \<in> set evs"
  then have "Entry e now \<in> set evs" and order: "range_order ks' (batches ?d)"
    by simp_all
  then have "held S ?d e" by (intro steps_held_entry)
  with order have "attempted S (sent (drain ks' ?d)) e" by (rule drain_held)
  then show "attempted S (sent (run S conf evs ks')) e" by (simp add: run_def)
next
  assume r: "reach S s"
  note inv = reach_inv [OF r]
  from inv show "wg_Wait_returns (client s) \<longleftrightarrow> returned s"
    by (simp add: wg_Wait_returns_def)
  from inv show "\<forall>e\<in>set (accepted s). attempted S (sent (loop s)) e" if "returned s"
    using that by simp
  from inv show "\<exists>c'. once_Do_close (client s) = Inr c' \<and> (once (client s) \<longrightarrow> c' = client s)"
    by (auto simp: once_Do_close_def close_quit_def)
  from inv show "\<exists>c'. wg_Done (client s) = Inr c'" if "\<not> returned s"
    using that by (simp add: wg_Done_def)
qed

lemma ex_reach: "reach String_app ex_s3"
proof -
  have 1: "reach String_app ex_s1"
    unfolding ex_s1_def by (rule reach.recv [OF reach.start]) (simp add: NewWithLogger_def)
  have "once_Do_close (client ex_s1) = Inr ((client ex_s1)\<lparr>once := True, quit := True\<rparr>)"
    by (simp add: once_Do_close_def close_quit_def ex_s1_def NewWithLogger_def)
  with 1 have 2: "reach String_app ex_s2"
    unfolding ex_s2_def by (rule reach.stop)
  have "\<not> returned ex_s2" "quit (client ex_s2)" "range_order [''t''] (batches (loop ex_s2))"
    "wg_Done (client ex_s2) = Inr ((client ex_s2)\<lparr>wg := wg (client ex_s2) - 1\<rparr>)"
    by (simp_all add: ex_s2_def ex_s1_def NewWithLogger_def on_entry_def range_order_def
          wg_Done_def ex1_def)
  with 2 show ?thesis
    unfolding ex_s3_def by (rule reach.exit)
qed

theorem shutdown_drains_witness:
  "range_order [''t''] (batches ex_pending)
   \<and> drain [''t''] ex_pending
       = \<lparr>batches = [''t'' \<mapsto> newBatch String_app 0 [ex1]],
          sent = [(''t'', newBatch String_app 0 [ex1])]\<rparr>
   \<and> range_order [''t'']
        (batches (foldl (step String_app ex_conf) \<lparr>batches = Map.empty, sent = []\<rparr> [Entry ex1 0]))
   \<and> Entry ex1 0 \<in> set [Entry ex1 0]
   \<and> attempted String_app (sent (run String_app ex_conf [Entry ex1 0] [''t''])) ex1
   \<and> reach String_app ex_s3
   \<and> wg_Wait_returns (client ex_s3)
   \<and> returned ex_s3
   \<and> accepted ex_s3 = [ex1]
   \<and> sent (loop ex_s3) = [(''t'', newBatch String_app 0 [ex1])]
   \<and> attempted String_app (sent (loop ex_s3)) ex1
   \<and> once (client ex_s3)
   \<and> once_Do_close (client ex_s3) = Inr (client ex_s3)
   \<and> reach String_app ex_s1
   \<and> \<not> returned ex_s1
   \<and> \<not> wg_Wait_returns (client ex_s1)
   \<and> encodeJSON (Inr :: PushRequest \<Rightarrow> unit + PushRequest) [''{app=a}'']
        (newBatch String_app 0 [ex1])
       = Inr (\<lparr>Streams = [\<lparr>Labels = [''app'' \<mapsto> ''a''], Values = [(''1'', ''ab'')]\<rparr>]\<rparr>, 1)
   \<and> 0 < MaxRetries (BackoffConfig ex_conf)
   \<and> (\<exists>rest r. sendBatch (Inr :: PushRequest \<Rightarrow> unit + PushRequest) [''{app=a}''] ex_conf
                   ex_net ''t'' (newBatch String_app 0 [ex1])
        = Inr (send ex_conf ''t''
                 \<lparr>Streams = [\<lparr>Labels = [''app'' \<mapsto> ''a''], Values = [(''1'', ''ab'')]\<rparr>]\<rparr>
                 (ex_net 0) # rest, r))"
proof -
  have o1: "range_order [''t''] (batches ex_pending)"
    by (simp add: range_order_def ex_pending_def)
  have o2: "range_order [''t'']
        (batches (foldl (step String_app ex_conf) \<lparr>batches = Map.empty, sent = []\<rparr> [Entry ex1 0]))"
    by (simp add: range_order_def on_entry_def ex1_def)
  have r1: "reach String_app ex_s1"
    unfolding ex_s1_def by (rule reach.recv [OF reach.start]) (simp add: NewWithLogger_def)
  have s3: "returned ex_s3" "accepted ex_s3 = [ex1]"
    "sent (loop ex_s3) = [(''t'', newBatch String_app 0 [ex1])]" "once (client ex_s3)"
    by (simp_all add: ex_s3_def ex_s2_def ex_s1_def NewWithLogger_def on_entry_def ex1_def)
  have s1: "\<not> returned ex_s1"
    by (simp add: ex_s1_def NewWithLogger_def)
  have enc: "encodeJSON (Inr :: PushRequest \<Rightarrow> unit + PushRequest) [''{app=a}'']
        (newBatch String_app 0 [ex1])
       = Inr (\<lparr>Streams = [\<lparr>Labels = [''app'' \<mapsto> ''a''], Values = [(''1'', ''ab'')]\<rparr>]\<rparr>, 1)"
    by (simp add: encodeJSON_def createPushRequest_def newBatch_single ex_defs)
  have retries: "0 < MaxRetries (BackoffConfig ex_conf)"
    by (simp add: ex_conf_def)
  from shutdown_drains
         [of "[''t'']" ex_pending "[''t'']" String_app ex_conf "[Entry ex1 0]" ex1 0 ex_s3
             "Inr :: PushRequest \<Rightarrow> unit + PushRequest" "[''{app=a}'']"
             "newBatch String_app 0 [ex1]"
             "\<lparr>Streams = [\<lparr>Labels = [''app'' \<mapsto> ''a''], Values = [(''1'', ''ab'')]\<rparr>]\<rparr>"
             1 ex_conf ex_net "''t''"]
    shutdown_drains
         [of "[''t'']" ex_pending "[''t'']" String_app ex_conf "[Entry ex1 0]" ex1 0 ex_s1
             "Inr :: PushRequest \<Rightarrow> unit + PushRequest" "[''{app=a}'']"
             "newBatch String_app 0 [ex1]"
             "\<lparr>Streams = [\<lparr>Labels = [''app'' \<mapsto> ''a''], Values = [(''1'', ''ab'')]\<rparr>]\<rparr>"
             1 ex_conf ex_net "''t''"]
    o1 o2 ex_reach r1 s3 s1 enc retries
  show ?thesis
    by (simp add: ex_pending_def)
qed

section \<open>Handle: the tenant and the caller's label set\<close>

lemma merged_reserved:
  assumes "ReservedLabelTenantID \<in> dom (h ! ls)"
  shows "ReservedLabelTenantID \<in> dom (merged c h ls)"
proof (cases "dom (h ! externalLabels c) \<noteq> {}")
  case True
  then have "merged c h ls = (h ! externalLabels c) ++ (h ! ls)"
    unfolding merged_def by (rule if_P)
  with assms show ?thesis by (simp only: dom_map_add Un_iff) blast
next
  case False
  then have "merged c h ls = h ! ls"
    unfolding merged_def by (rule if_not_P)
  with assms show ?thesis by (simp only:)
qed

lemma ex_merged:
  "merged ex_client ex_store 1 = [''job'' \<mapsto> ''x''] ++ [''app'' \<mapsto> ''a'', ReservedLabelTenantID \<mapsto> ''t1'']"
  by (simp add: merged_def ex_client_def ex_store_def)

lemma ex_merged_lookup:
  "merged ex_client ex_store 1 ReservedLabelTenantID = Some ''t1''"
  "merged ex_client ex_store 1 ''app'' = Some ''a''"
  "merged ex_client ex_store 1 ''job'' = Some ''x''"
  by (simp_all add: ex_merged [simplified] ReservedLabelTenantID_def map_add_def)

lemma Handle_eq:
  "Handle c h ls t s =
     (let m = merged c h ls;
          h1 = (if dom (h ! externalLabels c) \<noteq> {} then h @ [m] else h);
          h2 = (if ReservedLabelTenantID \<in> dom m then h1 @ [m(ReservedLabelTenantID := None)]
                else h1)
      in (h2, \<lparr>tenantID = getTenantID c m, labels = m(ReservedLabelTenantID := None),
               val = (Sprintf_d t, s)\<rparr>))"
proof (cases "dom (h ! externalLabels c) \<noteq> {}")
  case ext: True
  then have m: "merged c h ls = (h ! externalLabels c) ++ (h ! ls)"
    unfolding merged_def by (rule if_P)
  show ?thesis
  proof (cases "ReservedLabelTenantID \<in> dom (merged c h ls)")
    case True
    with ext show ?thesis
      unfolding m
      by (simp add: Handle_def Merge_def Clone_def delete_def Let_def nth_append
            list_update_append)
  next
    case False
    then have "(merged c h ls)(ReservedLabelTenantID := None) = merged c h ls"
      by (simp add: fun_upd_idem_iff domIff)
    with ext False show ?thesis
      unfolding m
      by (simp add: Handle_def Merge_def Let_def)
  qed
next
  case ext: False
  then have m: "merged c h ls = h ! ls"
    unfolding merged_def by (rule if_not_P)
  show ?thesis
  proof (cases "ReservedLabelTenantID \<in> dom (merged c h ls)")
    case True
    with ext show ?thesis
      unfolding m
      by (simp add: Handle_def Clone_def delete_def Let_def nth_append list_update_append)
  next
    case False
    then have "(merged c h ls)(ReservedLabelTenantID := None) = merged c h ls"
      by (simp add: fun_upd_idem_iff domIff)
    with ext False show ?thesis
      unfolding m
      by (simp add: Handle_def Let_def)
  qed
qed

lemma Handle_entry:
  "snd (Handle c h ls t s) =
     \<lparr>tenantID = getTenantID c (merged c h ls),
      labels = (merged c h ls)(ReservedLabelTenantID := None),
      val = (Sprintf_d t, s)\<rparr>"
  by (simp add: Handle_eq Let_def)

lemma Handle_store:
  "fst (Handle c h ls t s) =
     (if dom (h ! externalLabels c) \<noteq> {} then h @ [merged c h ls] else h)
     @ (if ReservedLabelTenantID \<in> dom (merged c h ls)
        then [(merged c h ls)(ReservedLabelTenantID := None)] else [])"
  by (simp add: Handle_eq Let_def)

lemma Handle_frame: "p < length h \<Longrightarrow> fst (Handle c h ls t s) ! p = h ! p"
  by (simp add: Handle_store nth_append)

text \<open>
  C9. \<open>Handle\<close> changes no label set the store held before the call: the caller's label
  set, at its reference, has the same bindings after the call as before. When it
  contains the reserved label, it still does after the call; the labels of the entry
  are a new map at the end of the store, and they lack the reserved label.
\<close>

theorem Handle_keeps_callers_labels:
  assumes "ls < length h"
  shows "fst (Handle c h ls t s) ! ls = h ! ls
    \<and> (\<forall>p<length h. fst (Handle c h ls t s) ! p = h ! p)
    \<and> (ReservedLabelTenantID \<in> dom (h ! ls) \<longrightarrow>
         (fst (Handle c h ls t s) ! ls) ReservedLabelTenantID = (h ! ls) ReservedLabelTenantID
         \<and> labels (snd (Handle c h ls t s)) ReservedLabelTenantID = None
         \<and> labels (snd (Handle c h ls t s)) = last (fst (Handle c h ls t s))
         \<and> length h < length (fst (Handle c h ls t s)))"
proof (intro conjI allI impI)
  from assms show same: "fst (Handle c h ls t s) ! ls = h ! ls"
    by (rule Handle_frame)
  show "fst (Handle c h ls t s) ! p = h ! p" if "p < length h" for p
    using that by (rule Handle_frame)
  show "(fst (Handle c h ls t s) ! ls) ReservedLabelTenantID = (h ! ls) ReservedLabelTenantID"
    by (simp only: same)
  show "labels (snd (Handle c h ls t s)) ReservedLabelTenantID = None"
    by (simp add: Handle_entry)
next
  assume "ReservedLabelTenantID \<in> dom (h ! ls)"
  then have r: "ReservedLabelTenantID \<in> dom (merged c h ls)"
    by (rule merged_reserved)
  then show "labels (snd (Handle c h ls t s)) = last (fst (Handle c h ls t s))"
    by (simp add: Handle_store Handle_entry)
  from r show "length h < length (fst (Handle c h ls t s))"
    by (simp add: Handle_store)
qed

lemma ex_store_facts:
  "Suc 0 < length ex_store"
  "ReservedLabelTenantID \<in> dom (ex_store ! Suc 0)"
  "(ex_store ! Suc 0) ReservedLabelTenantID = Some ''t1''"
  "dom (ex_store ! externalLabels ex_client) \<noteq> {}"
  "length ex_store = 2"
  by (simp_all add: ex_store_def ex_client_def)

theorem Handle_keeps_callers_labels_witness:
  "Suc 0 < length ex_store
   \<and> ReservedLabelTenantID \<in> dom (ex_store ! Suc 0)
   \<and> (fst (Handle ex_client ex_store (Suc 0) 1700000000000000000 ''line'') ! Suc 0)
        ReservedLabelTenantID = Some ''t1''
   \<and> labels (snd (Handle ex_client ex_store (Suc 0) 1700000000000000000 ''line''))
        ReservedLabelTenantID = None
   \<and> labels (snd (Handle ex_client ex_store (Suc 0) 1700000000000000000 ''line'')) ''app''
       = Some ''a''
   \<and> length (fst (Handle ex_client ex_store (Suc 0) 1700000000000000000 ''line'')) = 4"
proof -
  have r: "ReservedLabelTenantID \<in> dom (merged ex_client ex_store (Suc 0))"
    using ex_merged_lookup(1) by (simp add: domIff)
  have app: "labels (snd (Handle ex_client ex_store (Suc 0) 1700000000000000000 ''line'')) ''app''
       = Some ''a''"
    using ex_merged_lookup(2) by (simp add: Handle_entry ReservedLabelTenantID_def)
  have len: "length (fst (Handle ex_client ex_store (Suc 0) 1700000000000000000 ''line'')) = 4"
    using r ex_store_facts(4,5) by (simp add: Handle_store)
  note T = Handle_keeps_callers_labels
             [OF ex_store_facts(1), of ex_client 1700000000000000000 "''line''"]
  from T ex_store_facts(2)
  have t1: "(fst (Handle ex_client ex_store (Suc 0) 1700000000000000000 ''line'') ! Suc 0)
        ReservedLabelTenantID = (ex_store ! Suc 0) ReservedLabelTenantID"
    by blast
  from T ex_store_facts(2)
  have t2: "labels (snd (Handle ex_client ex_store (Suc 0) 1700000000000000000 ''line''))
        ReservedLabelTenantID = None"
    by blast
  from ex_store_facts(1,2) t1 [unfolded ex_store_facts(3)] t2 app len
  show ?thesis by (intro conjI)
qed






















end
